theory Spec2Isabelle
  imports
    Main
    "HOL-Library.Char_ord"
    "HOL-Library.List_Lexorder"
    "HOL-Library.Sublist"
    "HOL-Library.AList"
    "HOL-Library.Word"
begin

unbundle bit_operations_syntax

section \<open>Errors\<close>

text \<open>
  The error values of the package (the anonymous source file declaring \<open>ErrDirDoesNotExist\<close>
  and its siblings), \<open>filepath.SkipDir\<close>, and the system errors that the operating system
  can return to the package through \<open>*os.PathError\<close>. Go's \<open>nil\<close> error is \<open>None\<close>.
\<close>

datatype error =
    ErrDirDoesNotExist
  | ErrFileDoesNotExist
  | ErrNotFound
  | ErrPathIsEmpty
  | ErrPathIsDirectory
  | ErrPathIsDirectoryDestFile
  | ErrOneDirectoryOtherFile
  | ErrFilesNotEquals
  | SkipDir
  | ENOENT
  | ENOTDIR
  | EACCES
  | EISDIR
  | EEXIST
  | EBADF
  | EINVAL
  | NilDereference

definition os_IsNotExist :: "error \<Rightarrow> bool" where
  "os_IsNotExist err = (err = ENOENT)"

section \<open>Path strings (package \<open>strings\<close> and \<open>path/filepath\<close>, Unix)\<close>

type_synonym Path = string

text \<open>\<open>strings.Split(s, "/")\<close>: the segments between separators, never an empty list.\<close>

fun split_slash :: "string \<Rightarrow> string list" where
  "split_slash [] = [[]]"
| "split_slash (c # cs) =
     (if c = CHR ''/'' then [] # split_slash cs
      else (case split_slash cs of [] \<Rightarrow> [[c]] | x # xs \<Rightarrow> (c # x) # xs))"

text \<open>\<open>strings.Join(xs, "/")\<close>.\<close>

fun join_slash :: "string list \<Rightarrow> string" where
  "join_slash [] = []"
| "join_slash [x] = x"
| "join_slash (x # y # ys) = x @ CHR ''/'' # join_slash (y # ys)"

text \<open>
  \<open>filepath.Clean\<close>, by path elements: empty elements and \<open>.\<close> are dropped, \<open>..\<close> removes
  the element before it when there is one that is not itself \<open>..\<close>, is dropped at the root of
  a rooted path, and is kept otherwise; the empty result is \<open>.\<close>.
\<close>

definition clean_step :: "bool \<Rightarrow> string list \<Rightarrow> string \<Rightarrow> string list" where
  "clean_step rooted out c =
     (if c = [] \<or> c = ''.'' then out
      else if c = ''..'' then
        (if out \<noteq> [] \<and> last out \<noteq> ''..'' then butlast out
         else if rooted then out
         else out @ [''..''])
      else out @ [c])"

definition Clean :: "Path \<Rightarrow> Path" where
  "Clean path =
     (if path = [] then ''.''
      else
        (let rooted = (hd path = CHR ''/'');
             out = foldl (clean_step rooted) [] (split_slash path)
         in if rooted then CHR ''/'' # join_slash out
            else if out = [] then ''.''
            else join_slash out))"

text \<open>\<open>filepath.Join\<close> of two elements: leading empty elements are ignored, the rest is
  joined with the separator and cleaned.\<close>

definition Join :: "Path \<Rightarrow> string \<Rightarrow> Path" where
  "Join p other =
     (if p \<noteq> [] then Clean (p @ CHR ''/'' # other)
      else if other \<noteq> [] then Clean other
      else [])"

text \<open>\<open>filepath.Dir\<close>: everything up to and including the last separator, cleaned.\<close>

definition Parent :: "Path \<Rightarrow> Path" where
  "Parent p = Clean (rev (dropWhile (\<lambda>c. c \<noteq> CHR ''/'') (rev p)))"

text \<open>\<open>filepath.Base\<close>: trailing separators are stripped, then the last element is taken.\<close>

definition Basename :: "Path \<Rightarrow> string" where
  "Basename p =
     (if p = [] then ''.''
      else
        (let stripped = rev (dropWhile (\<lambda>c. c = CHR ''/'') (rev p));
             elem = rev (takeWhile (\<lambda>c. c \<noteq> CHR ''/'') (rev stripped))
         in if elem = [] then ''/'' else elem))"

text \<open>\<open>Dirname\<close> of the package's top-level functions.\<close>

definition Dirname :: "string \<Rightarrow> string" where
  "Dirname path = Parent path"

text \<open>
  \<open>strings.TrimSpace\<close>: the white space runes of Unicode, in their UTF-8 encoding, are
  removed from both ends.
\<close>

definition space_runes :: "string list" where
  "space_runes =
     [[CHR 0x09], [CHR 0x0A], [CHR 0x0B], [CHR 0x0C], [CHR 0x0D], [CHR 0x20],
      [CHR 0xC2, CHR 0x85], [CHR 0xC2, CHR 0xA0], [CHR 0xE1, CHR 0x9A, CHR 0x80],
      [CHR 0xE2, CHR 0x80, CHR 0x80], [CHR 0xE2, CHR 0x80, CHR 0x81],
      [CHR 0xE2, CHR 0x80, CHR 0x82], [CHR 0xE2, CHR 0x80, CHR 0x83],
      [CHR 0xE2, CHR 0x80, CHR 0x84], [CHR 0xE2, CHR 0x80, CHR 0x85],
      [CHR 0xE2, CHR 0x80, CHR 0x86], [CHR 0xE2, CHR 0x80, CHR 0x87],
      [CHR 0xE2, CHR 0x80, CHR 0x88], [CHR 0xE2, CHR 0x80, CHR 0x89],
      [CHR 0xE2, CHR 0x80, CHR 0x8A], [CHR 0xE2, CHR 0x80, CHR 0xA8],
      [CHR 0xE2, CHR 0x80, CHR 0xA9], [CHR 0xE2, CHR 0x80, CHR 0xAF],
      [CHR 0xE2, CHR 0x81, CHR 0x9F], [CHR 0xE3, CHR 0x80, CHR 0x80]]"

lemma space_runes_nonempty: "r \<in> set space_runes \<Longrightarrow> r \<noteq> []"
  by (auto simp: space_runes_def)

function trim_left :: "string \<Rightarrow> string" where
  "trim_left s =
     (case find (\<lambda>r. prefix r s) space_runes of
        None \<Rightarrow> s
      | Some r \<Rightarrow> trim_left (drop (length r) s))"
  by pat_completeness auto
termination
proof (relation "measure length")
  show "wf (measure length)" by simp
next
  fix s r
  assume "find (\<lambda>r. prefix r s) space_runes = Some r"
  then have "r \<in> set space_runes" and "prefix r s"
    by (auto simp: find_Some_iff)
  then have "r \<noteq> []" and "s \<noteq> []"
    using space_runes_nonempty by auto
  then show "(drop (length r) s, s) \<in> measure length"
    by simp
qed

function trim_right :: "string \<Rightarrow> string" where
  "trim_right s =
     (case find (\<lambda>r. suffix r s) space_runes of
        None \<Rightarrow> s
      | Some r \<Rightarrow> trim_right (take (length s - length r) s))"
  by pat_completeness auto
termination
proof (relation "measure length")
  show "wf (measure length)" by simp
next
  fix s r
  assume "find (\<lambda>r. suffix r s) space_runes = Some r"
  then have "r \<in> set space_runes" and "suffix r s"
    by (auto simp: find_Some_iff)
  then have "r \<noteq> []" and "s \<noteq> []"
    using space_runes_nonempty by auto
  then show "(take (length s - length r) s, s) \<in> measure length"
    by simp
qed

declare trim_left.simps [simp del] trim_right.simps [simp del]

definition TrimSpace :: "string \<Rightarrow> string" where
  "TrimSpace s = trim_right (trim_left s)"

definition Empty :: "Path \<Rightarrow> bool" where
  "Empty p = (TrimSpace p = [])"

text \<open>\<open>strings.Replace(s, old, new, 1)\<close>: the first occurrence of \<open>old\<close> is replaced.\<close>

fun Replace1 :: "string \<Rightarrow> string \<Rightarrow> string \<Rightarrow> string" where
  "Replace1 [] old new = (if old = [] then new else [])"
| "Replace1 (c # cs) old new =
     (if prefix old (c # cs) then new @ drop (length old) (c # cs)
      else c # Replace1 cs old new)"

section \<open>The file system\<close>

text \<open>
  The operating system, as far as the package observes it: a tree of regular files and
  directories, each with its permission bits, and the working directory of the process.
  A location is the list of names leading from the root directory to a node. The process
  owns every node and is not privileged, so the owner's bits decide access; there are no
  symbolic links and no special files, and the file mode creation mask is zero. File names
  hold no NUL byte, so a path that holds one names nothing: the system calls refuse it with
  \<open>EINVAL\<close>. No limit on the length of a path or on the space of the device is reached.
\<close>

type_synonym FileMode = nat

datatype node =
    File FileMode string
  | Dir FileMode "(string \<times> node) list"

record fsys =
  fs_root :: node
  fs_cwd :: "string list"

definition owner_r :: "FileMode \<Rightarrow> bool" where
  "owner_r m = bit m 8"

definition owner_w :: "FileMode \<Rightarrow> bool" where
  "owner_w m = bit m 7"

definition owner_x :: "FileMode \<Rightarrow> bool" where
  "owner_x m = bit m 6"

fun lookup :: "node \<Rightarrow> string list \<Rightarrow> node option" where
  "lookup n [] = Some n"
| "lookup (File m d) (x # xs) = None"
| "lookup (Dir m es) (x # xs) =
     (case map_of es x of None \<Rightarrow> None | Some ch \<Rightarrow> lookup ch xs)"

text \<open>\<open>store n loc new\<close> puts \<open>new\<close> at \<open>loc\<close>, replacing the node there or adding an
  entry to the directory above it.\<close>

fun store :: "node \<Rightarrow> string list \<Rightarrow> node \<Rightarrow> node" where
  "store n [] new = new"
| "store (File m d) (x # xs) new = File m d"
| "store (Dir m es) (x # xs) new =
     (case map_of es x of
        None \<Rightarrow> (if xs = [] then Dir m (es @ [(x, new)]) else Dir m es)
      | Some ch \<Rightarrow> Dir m (AList.update x (store ch xs new) es))"

text \<open>Path resolution, one element at a time: the node left behind must be a directory
  that the process may search.\<close>

definition step :: "fsys \<Rightarrow> string list \<Rightarrow> string \<Rightarrow> error + string list" where
  "step fs loc c =
     (case lookup (fs_root fs) loc of
        None \<Rightarrow> Inl ENOENT
      | Some (File m d) \<Rightarrow> Inl ENOTDIR
      | Some (Dir m es) \<Rightarrow>
          if \<not> owner_x m then Inl EACCES
          else if c = ''.'' then Inr loc
          else if c = ''..'' then Inr (butlast loc)
          else (case map_of es c of None \<Rightarrow> Inl ENOENT | Some ch \<Rightarrow> Inr (loc @ [c])))"

fun steps :: "fsys \<Rightarrow> string list \<Rightarrow> string list \<Rightarrow> error + string list" where
  "steps fs loc [] = Inr loc"
| "steps fs loc (c # cs) =
     (case step fs loc c of Inl e \<Rightarrow> Inl e | Inr loc' \<Rightarrow> steps fs loc' cs)"

definition components :: "string \<Rightarrow> string list" where
  "components s = filter (\<lambda>c. c \<noteq> []) (split_slash s)"

definition start :: "fsys \<Rightarrow> string \<Rightarrow> string list" where
  "start fs s = (if s \<noteq> [] \<and> hd s = CHR ''/'' then [] else fs_cwd fs)"

definition is_dir_at :: "fsys \<Rightarrow> string list \<Rightarrow> bool" where
  "is_dir_at fs loc = (case lookup (fs_root fs) loc of Some (Dir m es) \<Rightarrow> True | _ \<Rightarrow> False)"

text \<open>The location a path names. The empty path names nothing, and a path with a
  trailing separator names directories only.\<close>

definition namei :: "fsys \<Rightarrow> string \<Rightarrow> error + string list" where
  "namei fs s =
     (if s = [] then Inl ENOENT
      else
        (case steps fs (start fs s) (components s) of
           Inl e \<Rightarrow> Inl e
         | Inr loc \<Rightarrow>
             if lookup (fs_root fs) loc = None then Inl ENOENT
             else if last s = CHR ''/'' \<and> \<not> is_dir_at fs loc then Inl ENOTDIR
             else Inr loc))"

record FileInfo =
  IsDir :: bool
  Mode :: FileMode

definition IsRegular :: "FileInfo \<Rightarrow> bool" where
  "IsRegular info = (\<not> IsDir info)"

fun info_of :: "node \<Rightarrow> FileInfo" where
  "info_of (File m d) = \<lparr>IsDir = False, Mode = m\<rparr>"
| "info_of (Dir m es) = \<lparr>IsDir = True, Mode = m\<rparr>"

text \<open>The error of a system call for a path that names nothing: a path with a NUL byte is
  refused with \<open>EINVAL\<close> before it is resolved.\<close>

definition refusal :: "string \<Rightarrow> error \<Rightarrow> error" where
  "refusal name e = (if CHR 0x00 \<in> set name then EINVAL else e)"

text \<open>\<open>os.Stat\<close> and \<open>os.Lstat\<close>, which agree where there are no symbolic links.\<close>

definition os_Stat :: "string \<Rightarrow> fsys \<Rightarrow> error + FileInfo" where
  "os_Stat name fs =
     (case namei fs name of
        Inl e \<Rightarrow> Inl (refusal name e)
      | Inr loc \<Rightarrow> (case lookup (fs_root fs) loc of None \<Rightarrow> Inl ENOENT | Some n \<Rightarrow> Inr (info_of n)))"

definition os_Lstat :: "string \<Rightarrow> fsys \<Rightarrow> error + FileInfo" where
  "os_Lstat name fs = os_Stat name fs"

text \<open>Adding a node under the last element of a path (\<open>mkdir\<close>, and \<open>open\<close> with
  \<open>O_CREAT\<close>): the directory above must exist and be searchable and writable, the name
  must be free, and a regular file cannot be named with a trailing separator.\<close>

definition new_entry :: "fsys \<Rightarrow> string \<Rightarrow> node \<Rightarrow> error + (string list \<times> fsys)" where
  "new_entry fs s nd =
     (let cs = components s in
      if CHR 0x00 \<in> set s then Inl EINVAL
      else if cs = [] then Inl (if s = [] then ENOENT else EEXIST)
      else
        (case steps fs (start fs s) (butlast cs) of
           Inl e \<Rightarrow> Inl e
         | Inr ploc \<Rightarrow>
             (case lookup (fs_root fs) ploc of
                None \<Rightarrow> Inl ENOENT
              | Some (File m d) \<Rightarrow> Inl ENOTDIR
              | Some (Dir m es) \<Rightarrow>
                  if \<not> owner_x m then Inl EACCES
                  else if last cs = ''.'' \<or> last cs = ''..'' \<or> map_of es (last cs) \<noteq> None
                    then Inl EEXIST
                  else if (case nd of File fm d \<Rightarrow> last s = CHR ''/'' | Dir dm des \<Rightarrow> False)
                    then Inl EISDIR
                  else if \<not> owner_w m then Inl EACCES
                  else Inr (ploc @ [last cs],
                            fs\<lparr>fs_root := store (fs_root fs) (ploc @ [last cs]) nd\<rparr>))))"

text \<open>\<open>os.Mkdir\<close>.\<close>

definition os_Mkdir :: "string \<Rightarrow> FileMode \<Rightarrow> fsys \<Rightarrow> error option \<times> fsys" where
  "os_Mkdir name perm fs =
     (case new_entry fs name (Dir perm []) of
        Inl e \<Rightarrow> (Some e, fs)
      | Inr (loc, fs') \<Rightarrow> (None, fs'))"

text \<open>\<open>os.MkdirAll\<close>, as the library has it: an existing directory is success, an
  existing file is \<open>ENOTDIR\<close>; otherwise the parent (the path up to the separator before
  the last element) is made first, then the directory itself.\<close>

lemma length_rev_dropWhile_le: "length (rev (dropWhile P (rev xs))) \<le> length xs"
  by (metis length_dropWhile_le length_rev)

function os_MkdirAll :: "string \<Rightarrow> FileMode \<Rightarrow> fsys \<Rightarrow> error option \<times> fsys" where
  "os_MkdirAll path perm fs =
     (case os_Stat path fs of
        Inr dir \<Rightarrow> (if IsDir dir then (None, fs) else (Some ENOTDIR, fs))
      | Inl e \<Rightarrow>
          (let upto_i = rev (dropWhile (\<lambda>c. c = CHR ''/'') (rev path));
               upto_j = rev (dropWhile (\<lambda>c. c \<noteq> CHR ''/'') (rev upto_i))
           in case (if length upto_j > 1 then os_MkdirAll (butlast upto_j) perm fs
                    else (None, fs)) of
                (Some err, fs1) \<Rightarrow> (Some err, fs1)
              | (None, fs1) \<Rightarrow>
                  (case os_Mkdir path perm fs1 of
                     (None, fs2) \<Rightarrow> (None, fs2)
                   | (Some err, fs2) \<Rightarrow>
                       (case os_Lstat path fs2 of
                          Inr dir \<Rightarrow> if IsDir dir then (None, fs2) else (Some err, fs2)
                        | Inl e1 \<Rightarrow> (Some err, fs2)))))"
  by pat_completeness auto
termination
proof (relation "measure (\<lambda>(path, perm, fs). length path)")
  show "wf (measure (\<lambda>(path, perm, fs). length path))" by simp
next
  fix path :: string and perm :: FileMode and fs :: fsys and e upto_i upto_j
  assume i: "upto_i = rev (dropWhile (\<lambda>c. c = CHR ''/'') (rev path))"
    and j: "upto_j = rev (dropWhile (\<lambda>c. c \<noteq> CHR ''/'') (rev upto_i))"
    and gt: "1 < length upto_j"
  have "length upto_j \<le> length upto_i"
    unfolding j by (rule length_rev_dropWhile_le)
  also have "\<dots> \<le> length path"
    unfolding i by (rule length_rev_dropWhile_le)
  finally show "((butlast upto_j, perm, fs), (path, perm, fs)) \<in> measure (\<lambda>(path, perm, fs). length path)"
    using gt by simp
qed

declare os_MkdirAll.simps [simp del]

text \<open>The open flags of Linux.\<close>

definition O_RDONLY :: nat where "O_RDONLY = 0"
definition O_WRONLY :: nat where "O_WRONLY = 1"
definition O_CREATE :: nat where "O_CREATE = 64"
definition O_TRUNC :: nat where "O_TRUNC = 512"
definition O_APPEND :: nat where "O_APPEND = 1024"

text \<open>An open file is known by the location of its node.\<close>

datatype os_File = Handle "string list"

text \<open>A regular file named with a trailing separator: the elements of the path lead to a
  regular file, and a separator follows the last of them.\<close>

definition trailing_file :: "fsys \<Rightarrow> string \<Rightarrow> bool" where
  "trailing_file fs s =
     (s \<noteq> [] \<and> last s = CHR ''/'' \<and>
      (case steps fs (start fs s) (components s) of
         Inl e \<Rightarrow> False
       | Inr loc \<Rightarrow>
           (case lookup (fs_root fs) loc of Some (File m d) \<Rightarrow> True | _ \<Rightarrow> False)))"

text \<open>\<open>os.OpenFile\<close>: an existing regular file is opened when its permission bits allow the
  access asked for, and emptied under \<open>O_TRUNC\<close>; a missing one is created under
  \<open>O_CREATE\<close> with the permission bits given. Under \<open>O_CREATE\<close> a separator behind the
  last element is refused with \<open>EISDIR\<close> once the directories before it are resolved,
  whether that element is a directory, a regular file or missing.\<close>

definition os_OpenFile :: "string \<Rightarrow> nat \<Rightarrow> FileMode \<Rightarrow> fsys \<Rightarrow> (error + os_File) \<times> fsys" where
  "os_OpenFile name flag perm fs =
     (case namei fs name of
        Inr loc \<Rightarrow>
          (case lookup (fs_root fs) loc of
             None \<Rightarrow> (Inl ENOENT, fs)
           | Some (Dir m es) \<Rightarrow>
               if bit flag 0 \<or> bit flag 6 then (Inl EISDIR, fs)
               else if \<not> owner_r m then (Inl EACCES, fs)
               else (Inr (Handle loc), fs)
           | Some (File m d) \<Rightarrow>
               if (if bit flag 0 then \<not> owner_w m else \<not> owner_r m) then (Inl EACCES, fs)
               else if bit flag 9 then
                 (Inr (Handle loc), fs\<lparr>fs_root := store (fs_root fs) loc (File m [])\<rparr>)
               else (Inr (Handle loc), fs))
      | Inl e \<Rightarrow>
          if CHR 0x00 \<in> set name then (Inl EINVAL, fs)
          else if bit flag 6 \<and> trailing_file fs name then (Inl EISDIR, fs)
          else if e = ENOENT \<and> bit flag 6 then
            (case new_entry fs name (File perm []) of
               Inl e' \<Rightarrow> (Inl e', fs)
             | Inr (loc, fs') \<Rightarrow> (Inr (Handle loc), fs'))
          else (Inl e, fs))"

text \<open>\<open>io.Copy(dst, src)\<close> on two freshly opened files: the bytes of the source are
  written over the destination from its beginning.\<close>

definition io_Copy :: "os_File \<Rightarrow> os_File \<Rightarrow> fsys \<Rightarrow> (error + nat) \<times> fsys" where
  "io_Copy dst src fs =
     (case (dst, src) of
        (Handle dl, Handle sl) \<Rightarrow>
          (case lookup (fs_root fs) sl of
             Some (File sm sd) \<Rightarrow>
               (case lookup (fs_root fs) dl of
                  Some (File dm dd) \<Rightarrow>
                    (Inr (length sd),
                     fs\<lparr>fs_root := store (fs_root fs) dl (File dm (sd @ drop (length sd) dd))\<rparr>)
                | _ \<Rightarrow> (Inl EBADF, fs))
           | Some (Dir sm ses) \<Rightarrow> (Inl EISDIR, fs)
           | None \<Rightarrow> (Inl EBADF, fs)))"

text \<open>\<open>readDirNames\<close> of \<open>path/filepath\<close>: the names in a directory, sorted. A directory
  holds each name once and only names that are file names: in the list of entries of a
  \<open>Dir\<close> node, an entry with another name, or behind an entry of the same name, is not there
  for the file system (path resolution cannot reach it either).\<close>

definition valid_name :: "string \<Rightarrow> bool" where
  "valid_name n = (n \<noteq> [] \<and> n \<noteq> ''.'' \<and> n \<noteq> ''..'' \<and> CHR ''/'' \<notin> set n)"

definition dir_names :: "(string \<times> node) list \<Rightarrow> string list" where
  "dir_names es = sort (remdups (filter valid_name (map fst es)))"

definition readDirNames :: "string \<Rightarrow> fsys \<Rightarrow> string list \<times> error option" where
  "readDirNames dirname fs =
     (case namei fs dirname of
        Inl e \<Rightarrow> ([], Some (refusal dirname e))
      | Inr loc \<Rightarrow>
          (case lookup (fs_root fs) loc of
             None \<Rightarrow> ([], Some ENOENT)
           | Some (File m d) \<Rightarrow> ([], Some ENOTDIR)
           | Some (Dir m es) \<Rightarrow>
               if \<not> owner_r m then ([], Some EACCES)
               else (dir_names es, None)))"

text \<open>
  \<open>filepath.Walk\<close>. The callback may change the file system, so each directory is read when
  the walk reaches it, and the recursion is bounded by fuel, one unit for each level of
  nesting: \<open>None\<close> means that the fuel ran out before the walk returned. The state threaded
  through is the file system together with the variables the callback closes over.
\<close>

type_synonym 's WalkFunc =
  "string \<Rightarrow> FileInfo option \<Rightarrow> error option \<Rightarrow> fsys \<times> 's \<Rightarrow> error option \<times> (fsys \<times> 's)"

fun walk :: "nat \<Rightarrow> string \<Rightarrow> FileInfo \<Rightarrow> 's WalkFunc \<Rightarrow> fsys \<times> 's
              \<Rightarrow> (error option \<times> (fsys \<times> 's)) option"
  and walk_names :: "nat \<Rightarrow> string \<Rightarrow> string list \<Rightarrow> 's WalkFunc \<Rightarrow> fsys \<times> 's
              \<Rightarrow> (error option \<times> (fsys \<times> 's)) option"
where
  "walk 0 path info walkFn st = None"
| "walk (Suc n) path info walkFn st =
     (if \<not> IsDir info then Some (walkFn path (Some info) None st)
      else
        (case readDirNames path (fst st) of
           (names, err) \<Rightarrow>
             (case walkFn path (Some info) err st of
                (err1, st1) \<Rightarrow>
                  if err \<noteq> None \<or> err1 \<noteq> None then Some (err1, st1)
                  else walk_names (Suc n) path names walkFn st1)))"
| "walk_names 0 path names walkFn st = None"
| "walk_names (Suc n) path [] walkFn st = Some (None, st)"
| "walk_names (Suc n) path (name # names) walkFn st =
     (let filename = Join path name in
      case os_Lstat filename (fst st) of
        Inl e \<Rightarrow>
          (case walkFn filename None (Some e) st of
             (err, st1) \<Rightarrow>
               if err \<noteq> None \<and> err \<noteq> Some SkipDir then Some (err, st1)
               else walk_names (Suc n) path names walkFn st1)
      | Inr fileInfo \<Rightarrow>
          (case walk n filename fileInfo walkFn st of
             None \<Rightarrow> None
           | Some (err, st1) \<Rightarrow>
               if err \<noteq> None \<and> (\<not> IsDir fileInfo \<or> err \<noteq> Some SkipDir) then Some (err, st1)
               else walk_names (Suc n) path names walkFn st1))"

definition filepath_Walk :: "nat \<Rightarrow> string \<Rightarrow> 's WalkFunc \<Rightarrow> fsys \<times> 's
              \<Rightarrow> (error option \<times> (fsys \<times> 's)) option" where
  "filepath_Walk fuel root walkFn st =
     (case (case os_Lstat root (fst st) of
              Inl e \<Rightarrow> Some (walkFn root None (Some e) st)
            | Inr info \<Rightarrow> walk fuel root info walkFn st) of
        None \<Rightarrow> None
      | Some (err, st1) \<Rightarrow> if err = Some SkipDir then Some (None, st1) else Some (err, st1))"

section \<open>The package: \<open>path.go\<close>\<close>

datatype WalkType = WalkBoth | WalkFiles | WalkDirs

definition defaultFileMode :: FileMode where
  "defaultFileMode = 420"  \<comment> \<open>0644\<close>

definition defaultDirMode :: FileMode where
  "defaultDirMode = 493"  \<comment> \<open>0755\<close>

definition openFileFlag :: nat where
  "openFileFlag = O_RDONLY"

definition createFileFlag :: nat where
  "createFileFlag = O_WRONLY OR O_CREATE OR O_TRUNC"

definition appendFileFlag :: nat where
  "appendFileFlag = O_WRONLY OR O_CREATE OR O_APPEND"

definition Info :: "Path \<Rightarrow> fsys \<Rightarrow> FileInfo option" where
  "Info p fs = (case os_Stat p fs of Inr info \<Rightarrow> Some info | Inl err \<Rightarrow> None)"

definition Exists :: "Path \<Rightarrow> fsys \<Rightarrow> bool" where
  "Exists p fs = (Info p fs \<noteq> None)"

definition FileExists :: "Path \<Rightarrow> fsys \<Rightarrow> bool" where
  "FileExists p fs = (case Info p fs of Some info \<Rightarrow> IsRegular info | None \<Rightarrow> False)"

definition DirExists :: "Path \<Rightarrow> fsys \<Rightarrow> bool" where
  "DirExists p fs = (case Info p fs of Some info \<Rightarrow> IsDir info | None \<Rightarrow> False)"

definition MkdirAll :: "Path \<Rightarrow> fsys \<Rightarrow> error option \<times> fsys" where
  "MkdirAll p fs =
     (case os_MkdirAll p defaultDirMode fs of
        (Some err, fs1) \<Rightarrow> (Some err, fs1)
      | (None, fs1) \<Rightarrow> (None, fs1))"

definition open' :: "Path \<Rightarrow> nat \<Rightarrow> FileMode \<Rightarrow> fsys \<Rightarrow> (error + os_File) \<times> fsys" where
  "open' p flag mode fs =
     (if Empty p then (Inl ErrPathIsEmpty, fs)
      else if DirExists p fs then (Inl ErrPathIsDirectory, fs)
      else
        (case os_OpenFile p flag mode fs of
           (Inl err, fs1) \<Rightarrow>
             if \<not> os_IsNotExist err then (Inl err, fs1)
             else
               (case MkdirAll (Parent (Clean p)) fs1 of
                  (Some err', fs2) \<Rightarrow> (Inl err', fs2)
                | (None, fs2) \<Rightarrow> os_OpenFile p flag mode fs2)
         | (Inr file, fs1) \<Rightarrow> (Inr file, fs1)))"

definition Open :: "Path \<Rightarrow> fsys \<Rightarrow> (error + os_File) \<times> fsys" where
  "Open p fs =
     (if \<not> FileExists p fs then (Inl ErrFileDoesNotExist, fs)
      else open' p openFileFlag defaultFileMode fs)"

definition Create :: "Path \<Rightarrow> fsys \<Rightarrow> (error + os_File) \<times> fsys" where
  "Create p fs = open' p createFileFlag defaultFileMode fs"

definition Append :: "Path \<Rightarrow> fsys \<Rightarrow> (error + os_File) \<times> fsys" where
  "Append p fs =
     (case open' p appendFileFlag defaultFileMode fs of
        (Inl err, fs1) \<Rightarrow> (Inl err, fs1)
      | (Inr file, fs1) \<Rightarrow> (Inr file, fs1))"

text \<open>\<open>ioutil.ReadFile\<close> opens the file for reading and returns all its bytes; \<open>ReadAll\<close>
  asks for a regular file first.\<close>

definition ioutil_ReadFile :: "string \<Rightarrow> fsys \<Rightarrow> error + string" where
  "ioutil_ReadFile filename fs =
     (case os_OpenFile filename O_RDONLY 0 fs of
        (Inl err, fs1) \<Rightarrow> Inl err
      | (Inr (Handle loc), fs1) \<Rightarrow>
          (case lookup (fs_root fs1) loc of
             Some (File m d) \<Rightarrow> Inr d
           | Some (Dir m es) \<Rightarrow> Inl EISDIR
           | None \<Rightarrow> Inl EBADF))"

definition ReadAll :: "Path \<Rightarrow> fsys \<Rightarrow> error + string" where
  "ReadAll p fs =
     (if \<not> FileExists p fs then Inl ErrFileDoesNotExist else ioutil_ReadFile p fs)"

text \<open>The callback that \<open>Walk\<close> hands to \<open>filepath.Walk\<close>.\<close>

definition Walk_fn :: "Path \<Rightarrow> WalkType \<Rightarrow> (Path \<Rightarrow> bool \<Rightarrow> fsys \<times> 's \<Rightarrow> error option \<times> (fsys \<times> 's))
              \<Rightarrow> 's WalkFunc" where
  "Walk_fn p walkType walker path info err st =
     (case err of
        Some e \<Rightarrow> (Some e, st)
      | None \<Rightarrow>
          if path = p then (None, st)
          else
            (let skipper = (if Dirname path = p then None else Some SkipDir) in
             case info of
               None \<Rightarrow> (Some NilDereference, st)
             | Some i \<Rightarrow>
                 if IsDir i \<and> walkType = WalkFiles then (skipper, st)
                 else if \<not> IsDir i \<and> walkType = WalkDirs then (skipper, st)
                 else walker path (IsDir i) st))"

definition Walk :: "nat \<Rightarrow> Path \<Rightarrow> WalkType \<Rightarrow> (Path \<Rightarrow> bool \<Rightarrow> fsys \<times> 's \<Rightarrow> error option \<times> (fsys \<times> 's))
              \<Rightarrow> fsys \<times> 's \<Rightarrow> (error option \<times> (fsys \<times> 's)) option" where
  "Walk fuel p walkType walker st =
     (if \<not> DirExists p (fst st) then Some (Some ErrDirDoesNotExist, st)
      else filepath_Walk fuel p (Walk_fn p walkType walker) st)"

definition copyFiles :: "Path \<Rightarrow> Path \<Rightarrow> fsys \<Rightarrow> error option \<times> fsys" where
  "copyFiles src dest fs =
     (case Info src fs of
        None \<Rightarrow> (Some ErrFileDoesNotExist, fs)
      | Some info \<Rightarrow>
          (case open' src openFileFlag 256 fs of
             (Inl err, fs1) \<Rightarrow> (Some err, fs1)
           | (Inr srcFile, fs1) \<Rightarrow>
               (case open' dest createFileFlag (Mode info) fs1 of
                  (Inl err, fs2) \<Rightarrow> (Some err, fs2)
                | (Inr destFile, fs2) \<Rightarrow>
                    (case io_Copy destFile srcFile fs2 of
                       (Inl err, fs3) \<Rightarrow> (Some err, fs3)
                     | (Inr n, fs3) \<Rightarrow> (None, fs3)))))"

text \<open>The visitor of \<open>copyDirs\<close>.\<close>

definition copyDirs_fn :: "Path \<Rightarrow> Path \<Rightarrow> Path \<Rightarrow> bool \<Rightarrow> fsys \<times> unit \<Rightarrow> error option \<times> (fsys \<times> unit)" where
  "copyDirs_fn src dest path isDirectory st =
     (let newDest = Replace1 path src dest in
      if isDirectory then
        (case MkdirAll newDest (fst st) of
           (Some err, fs1) \<Rightarrow> (Some err, (fs1, ()))
         | (None, fs1) \<Rightarrow> (None, (fs1, ())))
      else
        (case copyFiles path newDest (fst st) of
           (Some err, fs1) \<Rightarrow> (Some err, (fs1, ()))
         | (None, fs1) \<Rightarrow> (None, (fs1, ()))))"

definition copyDirs :: "nat \<Rightarrow> Path \<Rightarrow> Path \<Rightarrow> fsys \<Rightarrow> (error option \<times> fsys) option" where
  "copyDirs fuel src dest fs =
     (case (if \<not> DirExists dest fs then MkdirAll dest fs else (None, fs)) of
        (Some err, fs1) \<Rightarrow> Some (Some err, fs1)
      | (None, fs1) \<Rightarrow>
          map_option (\<lambda>(err, st). (err, fst st))
            (Walk fuel src WalkBoth (copyDirs_fn src dest) (fs1, ())))"

definition copy :: "nat \<Rightarrow> Path \<Rightarrow> Path \<Rightarrow> fsys \<Rightarrow> (error option \<times> fsys) option" where
  "copy fuel src dest fs =
     (if \<not> Exists src fs then Some (Some ErrNotFound, fs)
      else if FileExists src fs then
        (if DirExists dest fs then Some (copyFiles src (Join dest (Basename src)) fs)
         else Some (copyFiles src dest fs))
      else if FileExists dest fs then Some (Some ErrPathIsDirectoryDestFile, fs)
      else copyDirs fuel src dest fs)"

definition CopyTo :: "nat \<Rightarrow> Path \<Rightarrow> Path \<Rightarrow> fsys \<Rightarrow> (error option \<times> fsys) option" where
  "CopyTo fuel p dest fs = copy fuel p dest fs"

text \<open>\<open>Count\<close>: the counter is the variable its visitor closes over; the error of the walk
  is dropped.\<close>

definition Count_fn :: "Path \<Rightarrow> bool \<Rightarrow> fsys \<times> 64 word \<Rightarrow> error option \<times> (fsys \<times> 64 word)" where
  "Count_fn path isDirectory st = (None, (fst st, snd st + 1))"

definition Count :: "nat \<Rightarrow> Path \<Rightarrow> WalkType \<Rightarrow> fsys \<Rightarrow> (64 word) option" where
  "Count fuel p walkType fs =
     (if \<not> DirExists p fs then Some 0
      else
        (case Walk fuel p walkType Count_fn (fs, 0) of
           None \<Rightarrow> None
         | Some (err, st) \<Rightarrow> Some (snd st)))"

section \<open>Notions of the specification\<close>

text \<open>
  What a walk delivers is observed through a visitor that does nothing but accept the
  entry, run under a wrapper that keeps a log of the entries handed to the visitor.
\<close>

definition accept :: "Path \<Rightarrow> bool \<Rightarrow> fsys \<times> unit \<Rightarrow> error option \<times> (fsys \<times> unit)" where
  "accept path isDirectory st = (None, st)"

definition logged :: "(Path \<Rightarrow> bool \<Rightarrow> fsys \<times> 's \<Rightarrow> error option \<times> (fsys \<times> 's))
    \<Rightarrow> Path \<Rightarrow> bool \<Rightarrow> fsys \<times> ((Path \<times> bool) list \<times> 's)
    \<Rightarrow> error option \<times> (fsys \<times> ((Path \<times> bool) list \<times> 's))" where
  "logged walker path isDirectory st =
     (case walker path isDirectory (fst st, snd (snd st)) of
        (err, st1) \<Rightarrow> (err, (fst st1, (fst (snd st) @ [(path, isDirectory)], snd st1))))"

text \<open>Two runs agree: both ran out of fuel, or both returned the same error in related
  states.\<close>

definition outcome_rel :: "('a \<Rightarrow> 'b \<Rightarrow> bool) \<Rightarrow> (error option \<times> 'a) option
    \<Rightarrow> (error option \<times> 'b) option \<Rightarrow> bool" where
  "outcome_rel R = rel_option (\<lambda>x y. fst x = fst y \<and> R (snd x) (snd y))"

text \<open>The path of the entry reached from \<open>p\<close> through the names \<open>ms\<close>, and the paths a
  walk from \<open>p\<close> can form.\<close>

definition pth :: "Path \<Rightarrow> string list \<Rightarrow> Path" where
  "pth p ms = foldl Join p ms"

definition desc :: "Path \<Rightarrow> Path \<Rightarrow> bool" where
  "desc p path = (\<exists>ms. (\<forall>n\<in>set ms. valid_name n) \<and> path = pth p ms)"

text \<open>Cleaned paths: the elements \<open>Clean\<close> keeps (leading \<open>..\<close> elements of a path that is
  not rooted, then file names) and the string they are written as.\<close>

definition render :: "bool \<Rightarrow> string list \<Rightarrow> string" where
  "render rooted out =
     (if rooted then CHR ''/'' # join_slash out
      else if out = [] then ''.''
      else join_slash out)"

fun canon_rev :: "bool \<Rightarrow> string list \<Rightarrow> bool" where
  "canon_rev rooted [] = True"
| "canon_rev rooted (c # cs) =
     (canon_rev rooted cs
      \<and> (valid_name c \<or> (c = ''..'' \<and> \<not> rooted \<and> (\<forall>d\<in>set cs. d = ''..''))))"

definition canon :: "bool \<Rightarrow> string list \<Rightarrow> bool" where
  "canon rooted out = canon_rev rooted (rev out)"

text \<open>Trees: whether a node is a directory, the depth of nesting below it, whether the
  process may list and search every directory in it, and the entries below it, each by
  the names leading to it, in the order of a walk.\<close>

fun is_Dir :: "node \<Rightarrow> bool" where
  "is_Dir (Dir m es) = True"
| "is_Dir (File m d) = False"

lemma size_child:
  "map_of es n = Some ch \<Longrightarrow> size ch < Suc (size_list (size_prod (\<lambda>x. 0) size) es)"
proof -
  assume "map_of es n = Some ch"
  then have "(n, ch) \<in> set es" by (rule map_of_SomeD)
  then show ?thesis by (induction es) auto
qed

function height :: "node \<Rightarrow> nat" where
  "height (File m d) = 0"
| "height (Dir m es) =
     Suc (Max (set (0 # map (\<lambda>n. case map_of es n of None \<Rightarrow> 0 | Some ch \<Rightarrow> height ch)
                          (dir_names es))))"
  by pat_completeness auto
termination
  by (relation "measure size") (auto simp: size_child)

function accessible :: "node \<Rightarrow> bool" where
  "accessible (File m d) = True"
| "accessible (Dir m es) =
     (owner_r m \<and> owner_x m
      \<and> (\<forall>n\<in>set (dir_names es). case map_of es n of None \<Rightarrow> True | Some ch \<Rightarrow> accessible ch))"
  by pat_completeness auto
termination
  by (relation "measure size") (auto simp: size_child)

function entries_below :: "node \<Rightarrow> (string list \<times> bool) list" where
  "entries_below (File m d) = []"
| "entries_below (Dir m es) =
     concat (map (\<lambda>n. case map_of es n of
                          None \<Rightarrow> []
                        | Some ch \<Rightarrow> ([n], is_Dir ch) # map (\<lambda>(ms, d). (n # ms, d)) (entries_below ch))
                 (dir_names es))"
  by pat_completeness auto
termination
  by (relation "measure size") (auto simp: size_child)

text \<open>What a walk of both kinds does with \<open>n\<close> units of fuel at an entry below the root,
  and what the walks log for one name of a directory.\<close>

definition both_ok :: "fsys \<Rightarrow> Path \<Rightarrow> string list \<Rightarrow> nat \<Rightarrow> bool" where
  "both_ok fs p loc0 n =
     (\<forall>ms nd log. ms \<noteq> [] \<longrightarrow> (\<forall>x\<in>set ms. valid_name x) \<longrightarrow>
        lookup (fs_root fs) (loc0 @ ms) = Some nd \<longrightarrow> namei fs (pth p ms) = Inr (loc0 @ ms) \<longrightarrow>
        accessible nd \<longrightarrow> height nd < n \<longrightarrow>
        walk n (pth p ms) (info_of nd) (Walk_fn p WalkBoth (logged accept)) (fs, (log, ()))
          = Some (None, (fs, (log @ (pth p ms, is_Dir nd)
                # map (\<lambda>(ms', d). (pth p (ms @ ms'), d)) (entries_below nd), ()))))"

definition below_child :: "Path \<Rightarrow> string list \<Rightarrow> (string \<times> node) list \<Rightarrow> string
    \<Rightarrow> (Path \<times> bool) list" where
  "below_child p ms es nm =
     (case map_of es nm of
        None \<Rightarrow> []
      | Some ch \<Rightarrow> (pth p (ms @ [nm]), is_Dir ch)
          # map (\<lambda>(ms', d). (pth p (ms @ nm # ms'), d)) (entries_below ch))"

definition file_child :: "Path \<Rightarrow> string list \<Rightarrow> (string \<times> node) list \<Rightarrow> string
    \<Rightarrow> (Path \<times> bool) list" where
  "file_child p ms es nm =
     (case map_of es nm of Some (File fm fd) \<Rightarrow> [(pth p (ms @ [nm]), False)] | _ \<Rightarrow> [])"

definition files_child2 :: "Path \<Rightarrow> (string \<times> node) list \<Rightarrow> string \<Rightarrow> (Path \<times> bool) list" where
  "files_child2 p es n1 =
     (case map_of es n1 of
        None \<Rightarrow> []
      | Some (File fm fd) \<Rightarrow> [(pth p [n1], False)]
      | Some (Dir m1 es1) \<Rightarrow> concat (map (file_child p [n1] es1) (dir_names es1)))"

text \<open>Whether the process may read the file a path names.\<close>

definition readable :: "Path \<Rightarrow> fsys \<Rightarrow> bool" where
  "readable p fs = (case Info p fs of Some info \<Rightarrow> owner_r (Mode info) | None \<Rightarrow> False)"

text \<open>
  What a file system keeps while the package writes to it. \<open>grows X fs fs'\<close>: every node of
  \<open>fs\<close> is a node of \<open>fs'\<close> at the same location, of the same kind and with the same
  permission bits, and every regular file at a location outside \<open>X\<close> has kept its bytes; the
  working directory is the same. \<open>contents p fs\<close>: the bytes of the regular file that the
  path \<open>p\<close> names.
\<close>

definition grows :: "string list set \<Rightarrow> fsys \<Rightarrow> fsys \<Rightarrow> bool" where
  "grows X fs fs' \<longleftrightarrow>
     fs_cwd fs' = fs_cwd fs \<and>
     (\<forall>loc n. lookup (fs_root fs) loc = Some n \<longrightarrow>
        (\<exists>n'. lookup (fs_root fs') loc = Some n' \<and> info_of n' = info_of n \<and>
              (loc \<notin> X \<longrightarrow> \<not> is_Dir n \<longrightarrow> n' = n)))"

definition contents :: "Path \<Rightarrow> fsys \<Rightarrow> string option" where
  "contents p fs =
     (case namei fs p of
        Inl e \<Rightarrow> None
      | Inr loc \<Rightarrow>
          (case lookup (fs_root fs) loc of Some (File m d) \<Rightarrow> Some d | _ \<Rightarrow> None))"

section \<open>Example file systems\<close>

text \<open>
  The working directory \<open>/home\<close> holds two regular files, \<open>notes.txt\<close> and one whose name
  is a single space, an empty directory \<open>pub\<close>, and a directory \<open>docs\<close> that has
  subdirectories with the names of both files.
\<close>

definition example_fs :: fsys where
  "example_fs =
     \<lparr>fs_root = Dir 493
        [(''home'', Dir 493
           [(''notes.txt'', File 420 ''hello''),
            ('' '', File 420 ''blank''),
            (''pub'', Dir 493 []),
            (''docs'', Dir 493
               [(''notes.txt'', Dir 493 [(''keep'', File 420 ''k'')]),
                ('' '', Dir 493 [])])])],
      fs_cwd = [''home'']\<rparr>"

text \<open>The same file system with \<open>notes.txt\<close> emptied.\<close>

definition emptied_fs :: fsys where
  "emptied_fs =
     \<lparr>fs_root = Dir 493
        [(''home'', Dir 493
           [(''notes.txt'', File 420 []),
            ('' '', File 420 ''blank''),
            (''pub'', Dir 493 []),
            (''docs'', Dir 493
               [(''notes.txt'', Dir 493 [(''keep'', File 420 ''k'')]),
                ('' '', Dir 493 [])])])],
      fs_cwd = [''home'']\<rparr>"

text \<open>The tree \<open>r/a/b\<close>, \<open>r/a/c/d\<close>, with \<open>b\<close> and \<open>d\<close> regular files; a tree \<open>r\<close> with a file
  \<open>a\<close> and a directory \<open>b\<close> that nobody may list; and a tree \<open>r\<close> with one file \<open>f\<close>.\<close>

definition walk_entries :: "(string \<times> node) list" where
  "walk_entries =
     [(''a'', Dir 493 [(''b'', File 420 ''B''), (''c'', Dir 493 [(''d'', File 420 ''D'')])])]"

definition walk_fs :: fsys where
  "walk_fs = \<lparr>fs_root = Dir 493 [(''r'', Dir 493 walk_entries)], fs_cwd = []\<rparr>"

definition locked_fs :: fsys where
  "locked_fs =
     \<lparr>fs_root = Dir 493 [(''r'', Dir 493 [(''a'', File 420 []), (''b'', Dir 0 [])])], fs_cwd = []\<rparr>"

definition copy_fs :: fsys where
  "copy_fs = \<lparr>fs_root = Dir 493 [(''r'', Dir 493 [(''f'', File 420 ''F'')])], fs_cwd = []\<rparr>"

section \<open>Facts about the predicates\<close>

lemma Info_SomeD:
  "Info p fs = Some info \<Longrightarrow>
     \<exists>loc n. namei fs p = Inr loc \<and> lookup (fs_root fs) loc = Some n \<and> info = info_of n"
  by (auto simp: Info_def os_Stat_def split: sum.splits option.splits)

lemma FileExists_namei:
  "FileExists p fs \<Longrightarrow>
     \<exists>loc m d. namei fs p = Inr loc \<and> lookup (fs_root fs) loc = Some (File m d)"
  unfolding FileExists_def IsRegular_def
  apply (auto split: option.splits dest!: Info_SomeD)
  subgoal for loc n by (cases n) auto
  done

lemma DirExists_namei:
  "DirExists p fs \<Longrightarrow>
     \<exists>loc m es. namei fs p = Inr loc \<and> lookup (fs_root fs) loc = Some (Dir m es)"
  unfolding DirExists_def
  apply (auto split: option.splits dest!: Info_SomeD)
  subgoal for loc n by (cases n) auto
  done

lemma DirExists_imp_Exists: "DirExists p fs \<Longrightarrow> Exists p fs"
  by (auto simp: DirExists_def Exists_def split: option.splits)

lemma DirExists_not_FileExists: "DirExists p fs \<Longrightarrow> \<not> FileExists p fs"
  by (auto simp: DirExists_def FileExists_def IsRegular_def split: option.splits)

lemma FileExists_imp_Exists: "FileExists p fs \<Longrightarrow> Exists p fs"
  by (auto simp: FileExists_def Exists_def split: option.splits)

lemma not_Exists_not_FileExists: "\<not> Exists p fs \<Longrightarrow> \<not> FileExists p fs"
  using FileExists_imp_Exists by blast

lemma open_read_unchanged: "snd (os_OpenFile p openFileFlag mode fs) = fs"
  by (auto simp: os_OpenFile_def openFileFlag_def O_RDONLY_def
      split: sum.splits option.splits node.splits)

lemma open_read_existing:
  "FileExists p fs \<Longrightarrow> fst (os_OpenFile p openFileFlag mode fs) \<noteq> Inl ENOENT"
  by (auto simp: os_OpenFile_def openFileFlag_def O_RDONLY_def
      dest!: FileExists_namei split: if_splits)

lemma open_read_readable:
  "FileExists p fs \<Longrightarrow> readable p fs \<Longrightarrow>
     \<exists>h. os_OpenFile p openFileFlag mode fs = (Inr h, fs)"
  by (auto simp: os_OpenFile_def openFileFlag_def O_RDONLY_def readable_def Info_def os_Stat_def
      dest!: FileExists_namei split: if_splits)

section \<open>Copying\<close>

text \<open>
  C8. For every destination, \<open>CopyTo\<close> from a source path that does not exist fails with
  \<open>ErrNotFound\<close>, and the file system it leaves is the one it found: nothing is
  created, modified or removed.
\<close>

theorem CopyTo_missing_source:
  "\<not> Exists src fs \<Longrightarrow> CopyTo fuel src dest fs = Some (Some ErrNotFound, fs)"
  by (simp add: CopyTo_def copy_def)

theorem CopyTo_missing_source_witness:
  "\<not> Exists ''nowhere'' example_fs
   \<and> CopyTo 0 ''nowhere'' ''pub'' example_fs = Some (Some ErrNotFound, example_fs)"
proof -
  have h: "\<not> Exists ''nowhere'' example_fs" by code_simp
  show ?thesis using h CopyTo_missing_source [OF h, of 0 "''pub''"] by simp
qed

text \<open>
  The cases of \<open>copy\<close>, in order, for a source that exists: a regular file is handed to
  \<open>copyFiles\<close> with the destination joined with the base name of the source when the
  destination is an existing directory, and with exactly the destination path otherwise; a
  directory whose destination is a regular file fails with \<open>ErrPathIsDirectoryDestFile\<close>;
  a directory whose destination is absent or a directory is handed to \<open>copyDirs\<close>.
\<close>

lemma copy_cases:
  "(FileExists src fs \<and> DirExists dest fs \<longrightarrow>
      CopyTo fuel src dest fs = Some (copyFiles src (Join dest (Basename src)) fs))
   \<and> (FileExists src fs \<and> \<not> DirExists dest fs \<longrightarrow>
      CopyTo fuel src dest fs = Some (copyFiles src dest fs))
   \<and> (DirExists src fs \<and> FileExists dest fs \<longrightarrow>
      CopyTo fuel src dest fs = Some (Some ErrPathIsDirectoryDestFile, fs))
   \<and> (DirExists src fs \<and> (\<not> Exists dest fs \<or> DirExists dest fs) \<longrightarrow>
      CopyTo fuel src dest fs = copyDirs fuel src dest fs)"
  using FileExists_imp_Exists [of src fs] DirExists_imp_Exists [of src fs]
    DirExists_not_FileExists [of src fs] DirExists_not_FileExists [of dest fs]
    not_Exists_not_FileExists [of dest fs]
  by (auto simp: CopyTo_def copy_def)

text \<open>
  Ordinary copies in the working directory \<open>/home\<close>: \<open>notes.txt\<close> into the directory \<open>pub\<close>,
  \<open>notes.txt\<close> to \<open>new/copy.txt\<close>, whose directory is made on the way, the tree \<open>docs\<close>
  to \<open>backup\<close>, which does not exist before, and the tree \<open>docs\<close> onto the regular file
  \<open>notes.txt\<close>.
\<close>

lemma copy_file_into_directory:
  "CopyTo 0 ''notes.txt'' ''pub'' example_fs =
     Some (None,
       \<lparr>fs_root = Dir 493
          [(''home'', Dir 493
             [(''notes.txt'', File 420 ''hello''),
              ('' '', File 420 ''blank''),
              (''pub'', Dir 493 [(''notes.txt'', File 420 ''hello'')]),
              (''docs'', Dir 493
                 [(''notes.txt'', Dir 493 [(''keep'', File 420 ''k'')]),
                  ('' '', Dir 493 [])])])],
        fs_cwd = [''home'']\<rparr>)"
  by code_simp

lemma copy_file_to_path:
  "CopyTo 0 ''notes.txt'' ''new/copy.txt'' example_fs =
     Some (None,
       \<lparr>fs_root = Dir 493
          [(''home'', Dir 493
             [(''notes.txt'', File 420 ''hello''),
              ('' '', File 420 ''blank''),
              (''pub'', Dir 493 []),
              (''docs'', Dir 493
                 [(''notes.txt'', Dir 493 [(''keep'', File 420 ''k'')]),
                  ('' '', Dir 493 [])]),
              (''new'', Dir 493 [(''copy.txt'', File 420 ''hello'')])])],
        fs_cwd = [''home'']\<rparr>)"
  by code_simp

lemma copy_tree:
  "CopyTo 3 ''docs'' ''backup'' example_fs =
     Some (None,
       \<lparr>fs_root = Dir 493
          [(''home'', Dir 493
             [(''notes.txt'', File 420 ''hello''),
              ('' '', File 420 ''blank''),
              (''pub'', Dir 493 []),
              (''docs'', Dir 493
                 [(''notes.txt'', Dir 493 [(''keep'', File 420 ''k'')]),
                  ('' '', Dir 493 [])]),
              (''backup'', Dir 493
                 [('' '', Dir 493 []),
                  (''notes.txt'', Dir 493 [(''keep'', File 420 ''k'')])])])],
        fs_cwd = [''home'']\<rparr>)"
  by code_simp

lemma copy_tree_onto_file:
  "CopyTo 3 ''docs'' ''notes.txt'' example_fs = Some (Some ErrPathIsDirectoryDestFile, example_fs)"
  by code_simp

text \<open>
  C10 as stated fails: a regular file whose path is blank is refused by the source open
  with \<open>ErrPathIsEmpty\<close> before the destination is looked at, although the destination
  directory holds a directory of the same name.
\<close>

theorem CopyTo_blank_source_counterexample:
  "FileExists '' '' example_fs \<and> DirExists ''docs'' example_fs
   \<and> DirExists (Join ''docs'' (Basename '' '')) example_fs
   \<and> CopyTo 0 '' '' ''docs'' example_fs = Some (Some ErrPathIsEmpty, example_fs)"
  by code_simp

text \<open>
  C10, amended. If the source is a regular file that the process may read, the destination
  is an existing directory, the destination joined with the base name of the source is an
  existing directory, and neither the source path nor the joined path is blank, then
  \<open>CopyTo\<close> fails with \<open>ErrPathIsDirectory\<close> and leaves the file system, and so that
  subdirectory and its contents, as it found it.
\<close>

theorem CopyTo_onto_subdirectory:
  assumes "FileExists src fs" and "DirExists dest fs"
    and "DirExists (Join dest (Basename src)) fs"
    and "\<not> Empty src" and "\<not> Empty (Join dest (Basename src))" and "readable src fs"
  shows "CopyTo fuel src dest fs = Some (Some ErrPathIsDirectory, fs)"
proof -
  obtain i where i: "Info src fs = Some i"
    using assms(1) by (auto simp: FileExists_def split: option.splits)
  obtain h where h: "os_OpenFile src openFileFlag 256 fs = (Inr h, fs)"
    using open_read_readable [OF assms(1,6)] by blast
  have "open' src openFileFlag 256 fs = (Inr h, fs)"
    using assms(1,4) h DirExists_not_FileExists [of src fs] by (auto simp: open'_def)
  moreover have "open' (Join dest (Basename src)) createFileFlag (Mode i) fs
      = (Inl ErrPathIsDirectory, fs)"
    using assms(3,5) by (simp add: open'_def)
  ultimately have "copyFiles src (Join dest (Basename src)) fs = (Some ErrPathIsDirectory, fs)"
    using i by (simp add: copyFiles_def)
  then show ?thesis using assms(1,2) FileExists_imp_Exists [OF assms(1)]
    by (simp add: CopyTo_def copy_def)
qed

theorem CopyTo_onto_subdirectory_witness:
  "FileExists ''notes.txt'' example_fs \<and> DirExists ''docs'' example_fs
   \<and> DirExists (Join ''docs'' (Basename ''notes.txt'')) example_fs
   \<and> \<not> Empty ''notes.txt'' \<and> \<not> Empty (Join ''docs'' (Basename ''notes.txt''))
   \<and> readable ''notes.txt'' example_fs
   \<and> CopyTo 0 ''notes.txt'' ''docs'' example_fs = Some (Some ErrPathIsDirectory, example_fs)"
proof -
  have 1: "FileExists ''notes.txt'' example_fs" by code_simp
  have 2: "DirExists ''docs'' example_fs" by code_simp
  have 3: "DirExists (Join ''docs'' (Basename ''notes.txt'')) example_fs" by code_simp
  have 4: "\<not> Empty ''notes.txt''" by code_simp
  have 5: "\<not> Empty (Join ''docs'' (Basename ''notes.txt''))" by code_simp
  have 6: "readable ''notes.txt'' example_fs" by code_simp
  show ?thesis
    using 1 2 3 4 5 6 CopyTo_onto_subdirectory [OF 1 2 3 4 5 6, of 0] by simp
qed

section \<open>Opening files\<close>

text \<open>
  C6. Opening for read a path that is not a regular file fails with
  \<open>ErrFileDoesNotExist\<close>, whatever else is wrong with the path (an empty path and a
  directory get this error too, not \<open>ErrPathIsEmpty\<close> or \<open>ErrPathIsDirectory\<close>), and no
  open for read changes the file system: it creates no file and no directory.
\<close>

theorem Open_read_only:
  "(\<not> FileExists p fs \<longrightarrow> Open p fs = (Inl ErrFileDoesNotExist, fs)) \<and> snd (Open p fs) = fs"
proof -
  have "snd (open' p openFileFlag defaultFileMode fs) = fs" if "FileExists p fs"
  proof -
    obtain r fs' where r: "os_OpenFile p openFileFlag defaultFileMode fs = (r, fs')"
      by (cases "os_OpenFile p openFileFlag defaultFileMode fs")
    with open_read_unchanged [of p defaultFileMode fs] have "fs' = fs" by simp
    moreover from r open_read_existing [OF that, of defaultFileMode] have "r \<noteq> Inl ENOENT"
      by simp
    ultimately show ?thesis using r
      by (auto simp: open'_def os_IsNotExist_def split: sum.splits)
  qed
  then show ?thesis by (auto simp: Open_def)
qed

theorem Open_read_only_witness:
  "\<not> FileExists ''docs'' example_fs
   \<and> Open ''docs'' example_fs = (Inl ErrFileDoesNotExist, example_fs)
   \<and> \<not> FileExists [] example_fs
   \<and> Open [] example_fs = (Inl ErrFileDoesNotExist, example_fs)
   \<and> snd (Open ''notes.txt'' example_fs) = example_fs"
proof -
  have a: "\<not> FileExists ''docs'' example_fs" by code_simp
  have b: "\<not> FileExists [] example_fs" by code_simp
  show ?thesis
    using a b Open_read_only [of "''docs''" example_fs] Open_read_only [of "[]" example_fs]
      Open_read_only [of "''notes.txt''" example_fs]
    by simp
qed

text \<open>
  C7. For a path that is not blank and not a directory, when the first native open for
  write or for append fails: with any error but "does not exist" that error is returned
  at once; with "does not exist" the directories of the parent of the cleaned path are
  made with mode 0755 (493), then either their creation failed and its error is returned,
  or the open is tried a second time and its outcome, success or failure, is the result.
\<close>

theorem open_retry:
  assumes "flag = createFileFlag \<or> flag = appendFileFlag"
    and "\<not> Empty p" and "\<not> DirExists p fs"
    and "os_OpenFile p flag mode fs = (Inl err, fs1)"
  shows "open' p flag mode fs =
           (if err \<noteq> ENOENT then (Inl err, fs1)
            else
              (case os_MkdirAll (Parent (Clean p)) 493 fs1 of
                 (Some err', fs2) \<Rightarrow> (Inl err', fs2)
               | (None, fs2) \<Rightarrow> os_OpenFile p flag mode fs2))"
  using assms(2-4)
  by (auto simp: open'_def os_IsNotExist_def MkdirAll_def defaultDirMode_def
      split: prod.splits option.splits)

text \<open>The witness: \<open>a/b/new.txt\<close> is created below two missing directories, which get
  mode 0755; \<open>notes.txt/x\<close> fails with \<open>ENOTDIR\<close> at once; and \<open>tmp/../notes.txt/x/y\<close>
  fails in the creation of the directory \<open>notes.txt/x\<close>.\<close>

theorem open_retry_witness:
  "\<not> Empty ''a/b/new.txt'' \<and> \<not> DirExists ''a/b/new.txt'' example_fs
   \<and> os_OpenFile ''a/b/new.txt'' createFileFlag 420 example_fs = (Inl ENOENT, example_fs)
   \<and> open' ''a/b/new.txt'' createFileFlag 420 example_fs =
       (Inr (Handle [''home'', ''a'', ''b'', ''new.txt'']),
        example_fs\<lparr>fs_root := store (fs_root example_fs) [''home'', ''a'']
                      (Dir 493 [(''b'', Dir 493 [(''new.txt'', File 420 [])])])\<rparr>)
   \<and> \<not> Empty ''notes.txt/x'' \<and> \<not> DirExists ''notes.txt/x'' example_fs
   \<and> os_OpenFile ''notes.txt/x'' appendFileFlag 420 example_fs = (Inl ENOTDIR, example_fs)
   \<and> open' ''notes.txt/x'' appendFileFlag 420 example_fs = (Inl ENOTDIR, example_fs)
   \<and> os_OpenFile ''tmp/../notes.txt/x/y'' createFileFlag 420 example_fs
       = (Inl ENOENT, example_fs)
   \<and> open' ''tmp/../notes.txt/x/y'' createFileFlag 420 example_fs = (Inl ENOTDIR, example_fs)"
proof -
  have a: "\<not> Empty ''a/b/new.txt''" by code_simp
  have b: "\<not> DirExists ''a/b/new.txt'' example_fs" by code_simp
  have c: "os_OpenFile ''a/b/new.txt'' createFileFlag 420 example_fs = (Inl ENOENT, example_fs)"
    by code_simp
  have d: "(case os_MkdirAll (Parent (Clean ''a/b/new.txt'')) 493 example_fs of
              (Some err', fs2) \<Rightarrow> (Inl err', fs2)
            | (None, fs2) \<Rightarrow> os_OpenFile ''a/b/new.txt'' createFileFlag 420 fs2) =
       (Inr (Handle [''home'', ''a'', ''b'', ''new.txt'']),
        example_fs\<lparr>fs_root := store (fs_root example_fs) [''home'', ''a'']
                      (Dir 493 [(''b'', Dir 493 [(''new.txt'', File 420 [])])])\<rparr>)"
    by code_simp
  have e: "\<not> Empty ''notes.txt/x''" by code_simp
  have f: "\<not> DirExists ''notes.txt/x'' example_fs" by code_simp
  have g: "os_OpenFile ''notes.txt/x'' appendFileFlag 420 example_fs = (Inl ENOTDIR, example_fs)"
    by code_simp
  have h: "\<not> Empty ''tmp/../notes.txt/x/y''" by code_simp
  have i: "\<not> DirExists ''tmp/../notes.txt/x/y'' example_fs" by code_simp
  have j: "os_OpenFile ''tmp/../notes.txt/x/y'' createFileFlag 420 example_fs
       = (Inl ENOENT, example_fs)"
    by code_simp
  have k: "(case os_MkdirAll (Parent (Clean ''tmp/../notes.txt/x/y'')) 493 example_fs of
              (Some err', fs2) \<Rightarrow> (Inl err', fs2)
            | (None, fs2) \<Rightarrow> os_OpenFile ''tmp/../notes.txt/x/y'' createFileFlag 420 fs2) =
       (Inl ENOTDIR, example_fs)"
    by code_simp
  show ?thesis
    using a b c e f g j
      open_retry [of createFileFlag, OF _ a b c]
      open_retry [of appendFileFlag, OF _ e f g]
      open_retry [of createFileFlag, OF _ h i j]
    by (simp add: d k)
qed

text \<open>
  C9. There are inputs on which opening for write, and opening for append, returns an
  error and has changed the file system: the first native open fails with "does not
  exist", the parent of the cleaned path, which was not a directory, is made and stays,
  and the second native open fails too. With \<open>tmp/../out/log.txt\<close>, where \<open>tmp\<close> does not
  exist, the second open fails as the first did; with \<open>out/log.txt/\<close> it fails because
  the path names a directory.
\<close>

lemma Create_leaves_directory:
  "os_OpenFile ''tmp/../out/log.txt'' createFileFlag defaultFileMode example_fs
     = (Inl ENOENT, example_fs)
   \<and> Create ''tmp/../out/log.txt'' example_fs
     = (Inl ENOENT, example_fs\<lparr>fs_root := store (fs_root example_fs) [''home'', ''out''] (Dir 493 [])\<rparr>)
   \<and> \<not> DirExists (Parent (Clean ''tmp/../out/log.txt'')) example_fs
   \<and> DirExists (Parent (Clean ''tmp/../out/log.txt''))
       (example_fs\<lparr>fs_root := store (fs_root example_fs) [''home'', ''out''] (Dir 493 [])\<rparr>)"
  by code_simp

lemma Append_leaves_directory:
  "os_OpenFile ''out/log.txt/'' appendFileFlag defaultFileMode example_fs
     = (Inl ENOENT, example_fs)
   \<and> Append ''out/log.txt/'' example_fs
     = (Inl EISDIR, example_fs\<lparr>fs_root := store (fs_root example_fs) [''home'', ''out''] (Dir 493 [])\<rparr>)
   \<and> \<not> DirExists (Parent (Clean ''out/log.txt/'')) example_fs
   \<and> DirExists (Parent (Clean ''out/log.txt/''))
       (example_fs\<lparr>fs_root := store (fs_root example_fs) [''home'', ''out''] (Dir 493 [])\<rparr>)"
  by code_simp

theorem open_not_atomic:
  "(\<exists>p fs err fs'.
      os_OpenFile p createFileFlag defaultFileMode fs = (Inl ENOENT, fs)
      \<and> Create p fs = (Inl err, fs')
      \<and> \<not> DirExists (Parent (Clean p)) fs \<and> DirExists (Parent (Clean p)) fs')
   \<and> (\<exists>p fs err fs'.
      os_OpenFile p appendFileFlag defaultFileMode fs = (Inl ENOENT, fs)
      \<and> Append p fs = (Inl err, fs')
      \<and> \<not> DirExists (Parent (Clean p)) fs \<and> DirExists (Parent (Clean p)) fs')"
  using Create_leaves_directory Append_leaves_directory by blast

section \<open>Cleaned paths\<close>

lemma split_slash_nonempty [simp]: "split_slash s \<noteq> []"
  by (induction s) (auto split: list.splits)

lemma split_slash_append:
  "split_slash (a @ CHR ''/'' # b) = split_slash a @ split_slash b"
  by (induction a) (auto split: list.splits)

lemma split_slash_noslash: "CHR ''/'' \<notin> set n \<Longrightarrow> split_slash n = [n]"
  by (induction n) auto

lemma split_slash_elems: "c \<in> set (split_slash s) \<Longrightarrow> CHR ''/'' \<notin> set c"
  by (induction s arbitrary: c) (auto split: list.splits if_splits)

lemma split_join:
  "out \<noteq> [] \<Longrightarrow> \<forall>c\<in>set out. CHR ''/'' \<notin> set c \<Longrightarrow> split_slash (join_slash out) = out"
proof (induction out rule: join_slash.induct)
  case 1
  then show ?case by simp
next
  case (2 x)
  then show ?case by (simp add: split_slash_noslash)
next
  case (3 x y ys)
  then show ?case by (simp add: split_slash_append split_slash_noslash)
qed

lemma join_slash_snoc:
  "join_slash (out @ [n]) = (if out = [] then n else join_slash out @ CHR ''/'' # n)"
  by (induction out rule: join_slash.induct) auto

lemma canon_Nil [simp]: "canon r []"
  by (simp add: canon_def)

lemma canon_snoc [simp]:
  "canon r (out @ [c]) =
     (canon r out \<and> (valid_name c \<or> (c = ''..'' \<and> \<not> r \<and> (\<forall>d\<in>set out. d = ''..''))))"
  by (simp add: canon_def)

lemma canon_single [simp]: "canon r [c] = (valid_name c \<or> (c = ''..'' \<and> \<not> r))"
  using canon_snoc [of r "[]" c] by simp

lemma canon_snoc2 [simp]:
  "canon r (out @ [x, c]) =
     (canon r (out @ [x]) \<and> (valid_name c \<or> (c = ''..'' \<and> \<not> r \<and> x = ''..'' \<and> (\<forall>d\<in>set out. d = ''..''))))"
  using canon_snoc [of r "out @ [x]" c] by auto

lemma canon_prefix: "canon r (xs @ ys) \<Longrightarrow> canon r xs"
  by (induction ys rule: rev_induct) (auto simp flip: append_assoc)

lemma canon_elem: "canon r out \<Longrightarrow> c \<in> set out \<Longrightarrow> c = ''..'' \<or> valid_name c"
  by (induction out rule: rev_induct) auto

lemma canon_rooted_valid: "canon True out \<Longrightarrow> c \<in> set out \<Longrightarrow> valid_name c"
  by (induction out rule: rev_induct) auto

lemma canon_noslash: "canon r out \<Longrightarrow> c \<in> set out \<Longrightarrow> c \<noteq> [] \<and> CHR ''/'' \<notin> set c"
  using canon_elem [of r out c] by (auto simp: valid_name_def)

lemma canon_append_valid: "canon r out \<Longrightarrow> \<forall>n\<in>set ns. valid_name n \<Longrightarrow> canon r (out @ ns)"
  by (induction ns rule: rev_induct) (auto simp flip: append_assoc)

lemma canon_butlast: "canon r out \<Longrightarrow> canon r (butlast out)"
  by (cases out rule: rev_cases) auto

lemma canon_clean_step:
  "canon r out \<Longrightarrow> CHR ''/'' \<notin> set c \<Longrightarrow> canon r (clean_step r out c)"
proof -
  assume c: "canon r out" and ns: "CHR ''/'' \<notin> set c"
  show ?thesis
  proof (cases out rule: rev_cases)
    case Nil
    then show ?thesis using ns by (auto simp: clean_step_def valid_name_def)
  next
    case (snoc xs x)
    then show ?thesis using c ns
      by (auto simp: clean_step_def valid_name_def)
  qed
qed

lemma canon_foldl:
  "canon r acc \<Longrightarrow> \<forall>c\<in>set cs. CHR ''/'' \<notin> set c \<Longrightarrow> canon r (foldl (clean_step r) acc cs)"
  by (induction cs arbitrary: acc) (auto intro: canon_clean_step)

lemma clean_step_valid: "valid_name n \<Longrightarrow> clean_step r out n = out @ [n]"
  by (simp add: clean_step_def valid_name_def)

lemma clean_step_canon_snoc: "canon r (acc @ [x]) \<Longrightarrow> clean_step r acc x = acc @ [x]"
proof -
  assume "canon r (acc @ [x])"
  then have "valid_name x \<or> (x = ''..'' \<and> \<not> r \<and> (\<forall>d\<in>set acc. d = ''..''))" by simp
  then show ?thesis
    by (cases acc rule: rev_cases) (auto simp: clean_step_def valid_name_def)
qed

lemma foldl_clean_canon:
  "canon r (acc @ xs) \<Longrightarrow> foldl (clean_step r) acc xs = acc @ xs"
proof (induction xs arbitrary: acc)
  case Nil
  then show ?case by simp
next
  case (Cons x xs)
  from Cons.prems have c: "canon r ((acc @ [x]) @ xs)" by simp
  then have "canon r (acc @ [x])" by (rule canon_prefix)
  then have "clean_step r acc x = acc @ [x]" by (rule clean_step_canon_snoc)
  with Cons.IH [OF c] show ?case by simp
qed

lemma foldl_clean_empty: "foldl (clean_step r) acc [[]] = acc"
  by (simp add: clean_step_def)

text \<open>The rendering of a canonical list and its elements.\<close>

lemma join_slash_hd:
  "out \<noteq> [] \<Longrightarrow> hd out \<noteq> [] \<Longrightarrow> join_slash out \<noteq> [] \<and> hd (join_slash out) = hd (hd out)"
  by (induction out rule: join_slash.induct) auto

lemma render_nonempty [simp]: "canon r out \<Longrightarrow> render r out \<noteq> []"
  using join_slash_hd [of out] canon_noslash [of r out "hd out"]
  by (auto simp: render_def)

lemma render_rooted [simp]: "canon r out \<Longrightarrow> (hd (render r out) = CHR ''/'') = r"
proof -
  assume c: "canon r out"
  show ?thesis
  proof (cases "r \<or> out = []")
    case True
    then show ?thesis by (auto simp: render_def)
  next
    case False
    then have "hd out \<in> set out" by simp
    with canon_noslash [OF c] have "hd out \<noteq> []" "CHR ''/'' \<notin> set (hd out)" by auto
    then have "hd (hd out) \<noteq> CHR ''/''" by (cases "hd out") auto
    with False join_slash_hd [of out] \<open>hd out \<noteq> []\<close> show ?thesis by (auto simp: render_def)
  qed
qed

lemma split_render:
  "canon r out \<Longrightarrow>
   filter (\<lambda>c. c \<noteq> []) (split_slash (render r out)) = (if \<not> r \<and> out = [] then [''.''] else out)
   \<and> foldl (clean_step r) [] (split_slash (render r out)) = out"
proof -
  assume c: "canon r out"
  have ns: "\<forall>c\<in>set out. CHR ''/'' \<notin> set c" and ne: "\<forall>c\<in>set out. c \<noteq> []"
    using canon_noslash [OF c] by auto
  have f: "filter (\<lambda>c. c \<noteq> []) out = out" using ne by (simp add: filter_id_conv)
  have fo: "foldl (clean_step r) [] out = out" using foldl_clean_canon [of r "[]" out] c by simp
  show ?thesis
  proof (cases "out = []")
    case True
    then show ?thesis by (auto simp: render_def clean_step_def)
  next
    case False
    have s: "split_slash (join_slash out) = out" using split_join [OF False ns] .
    show ?thesis using False s f fo by (auto simp: render_def clean_step_def)
  qed
qed

lemma Clean_render: "canon r out \<Longrightarrow> Clean (render r out) = render r out"
  using split_render [of r out] render_rooted [of r out] render_nonempty [of r out]
  by (auto simp: Clean_def Let_def) (auto simp: render_def)

lemma Clean_canon:
  "\<exists>out. canon (path \<noteq> [] \<and> hd path = CHR ''/'') out
        \<and> Clean path = render (path \<noteq> [] \<and> hd path = CHR ''/'') out
        \<and> (path \<noteq> [] \<longrightarrow> out = foldl (clean_step (hd path = CHR ''/'')) [] (split_slash path))"
proof (cases "path = []")
  case True
  then show ?thesis by (auto simp: Clean_def render_def intro: exI [of _ "[]"])
next
  case False
  let ?r = "hd path = CHR ''/''"
  let ?out = "foldl (clean_step ?r) [] (split_slash path)"
  have "canon ?r ?out" by (rule canon_foldl) (auto dest: split_slash_elems)
  moreover have "Clean path = render ?r ?out"
    using False by (auto simp: Clean_def render_def Let_def)
  ultimately show ?thesis using False by auto
qed

lemma Clean_idem: "Clean (Clean path) = Clean path"
  using Clean_canon [of path] Clean_render by auto

lemma Join_general:
  assumes "p \<noteq> []" and "valid_name n"
  shows "Join p n = render (hd p = CHR ''/'') (foldl (clean_step (hd p = CHR ''/'')) [] (split_slash p) @ [n])"
proof -
  have ns: "split_slash n = [n]" using assms(2) by (simp add: split_slash_noslash valid_name_def)
  have "hd (p @ CHR ''/'' # n) = hd p" using assms(1) by simp
  then show ?thesis using assms
    by (simp add: Join_def Clean_def Let_def split_slash_append ns clean_step_valid render_def)
qed

lemma Join_render:
  "canon r out \<Longrightarrow> valid_name n \<Longrightarrow> Join (render r out) n = render r (out @ [n])"
  using Join_general [of "render r out" n] split_render [of r out] by simp

lemma Join_Clean: "p \<noteq> [] \<Longrightarrow> valid_name n \<Longrightarrow> Join p n = Join (Clean p) n"
proof -
  assume p: "p \<noteq> []" and n: "valid_name n"
  from Clean_canon [of p] p obtain out where c: "canon (hd p = CHR ''/'') out"
    and cl: "Clean p = render (hd p = CHR ''/'') out"
    and o: "out = foldl (clean_step (hd p = CHR ''/'')) [] (split_slash p)" by auto
  show ?thesis using Join_general [OF p n] Join_render [OF c n] cl o by simp
qed

lemma upto_last_slash:
  "CHR ''/'' \<notin> set n \<Longrightarrow> X = [] \<or> last X = CHR ''/''
     \<Longrightarrow> rev (dropWhile (\<lambda>c. c \<noteq> CHR ''/'') (rev (X @ n))) = X"
proof -
  assume n: "CHR ''/'' \<notin> set n" and x: "X = [] \<or> last X = CHR ''/''"
  have "dropWhile (\<lambda>c. c \<noteq> CHR ''/'') (rev n @ rev X) = dropWhile (\<lambda>c. c \<noteq> CHR ''/'') (rev X)"
    using n by (intro dropWhile_append2) auto
  moreover have "dropWhile (\<lambda>c. c \<noteq> CHR ''/'') (rev X) = rev X"
    using x by (cases X rule: rev_cases) auto
  ultimately show ?thesis by simp
qed

lemma Clean_render_slash: "canon r out \<Longrightarrow> Clean (render r out @ ''/'') = render r out"
proof -
  assume c: "canon r out"
  have "hd (render r out @ ''/'') = hd (render r out)" using render_nonempty [OF c] by simp
  then show ?thesis
    using split_render [OF c] render_rooted [OF c] render_nonempty [OF c]
    by (auto simp: Clean_def Let_def split_slash_append clean_step_def) (auto simp: render_def)
qed

lemma Parent_append:
  "CHR ''/'' \<notin> set n \<Longrightarrow> X = [] \<or> last X = CHR ''/'' \<Longrightarrow> Parent (X @ n) = Clean X"
  unfolding Parent_def using upto_last_slash [of n X] by presburger

lemma Parent_render:
  assumes "canon r out" and "valid_name n"
  shows "Parent (render r (out @ [n])) = render r out"
proof -
  have ns: "CHR ''/'' \<notin> set n" using assms(2) by (simp add: valid_name_def)
  show ?thesis
  proof (cases "out = []")
    case True
    show ?thesis
    proof (cases r)
      case True
      have "render r (out @ [n]) = ''/'' @ n" using True \<open>out = []\<close> by (simp add: render_def)
      then have "Parent (render r (out @ [n])) = Clean ''/''"
        using Parent_append [OF ns, of "''/''"] by simp
      also have "\<dots> = ''/''" by (simp add: Clean_def clean_step_def)
      finally show ?thesis using True \<open>out = []\<close> by (simp add: render_def)
    next
      case False
      have "render r (out @ [n]) = [] @ n"
        using False \<open>out = []\<close> by (simp add: render_def)
      then have "Parent (render r (out @ [n])) = Clean []"
        using Parent_append [OF ns, of "[]"] by simp
      also have "\<dots> = ''.''" by (simp add: Clean_def)
      finally show ?thesis using False \<open>out = []\<close> by (simp add: render_def)
    qed
  next
    case False
    have "render r (out @ [n]) = (render r out @ ''/'') @ n"
      using False by (simp add: render_def join_slash_snoc)
    then have "Parent (render r (out @ [n])) = Clean (render r out @ ''/'')"
      using Parent_append [OF ns, of "render r out @ ''/''"] by simp
    then show ?thesis using Clean_render_slash [OF assms(1)] by simp
  qed
qed

lemma render_inject:
  assumes "canon r out" and "canon r out'" and "render r out = render r out'"
  shows "out = out'"
proof -
  have "foldl (clean_step r) [] (split_slash (render r out)) = out"
    using split_render [OF assms(1)] by simp
  moreover have "foldl (clean_step r) [] (split_slash (render r out')) = out'"
    using split_render [OF assms(2)] by simp
  ultimately show ?thesis using assms(3) by metis
qed

lemma render_prefix:
  assumes "canon r out" and "r \<or> out \<noteq> []" and "ns \<noteq> []"
  shows "\<exists>rest. render r (out @ ns) = render r out @ rest"
  using assms(3)
proof (induction ns rule: rev_nonempty_induct)
  case (single x)
  show ?case using assms(2) by (auto simp: render_def join_slash_snoc)
next
  case (snoc x xs)
  then obtain rest where "render r (out @ xs) = render r out @ rest" by blast
  moreover have "render r ((out @ xs) @ [x]) = render r (out @ xs) @ CHR ''/'' # x"
    using snoc(1) by (auto simp: render_def join_slash_snoc simp del: append_assoc)
  ultimately show ?case by simp
qed

section \<open>Resolution of cleaned and joined paths\<close>

lemma steps_append:
  "steps fs l (xs @ ys) = (case steps fs l xs of Inl e \<Rightarrow> Inl e | Inr l' \<Rightarrow> steps fs l' ys)"
  by (induction xs arbitrary: l) (auto split: sum.splits)

lemma steps_snoc_Inr:
  "steps fs l (xs @ [c]) = Inr loc \<longleftrightarrow> (\<exists>l'. steps fs l xs = Inr l' \<and> step fs l' c = Inr loc)"
  by (auto simp: steps_append split: sum.splits)

lemma step_valid: "valid_name c \<Longrightarrow> step fs l c = Inr l' \<Longrightarrow> l' = l @ [c]"
  by (auto simp: step_def valid_name_def split: option.splits node.splits if_splits)

lemma step_dot: "step fs l ''.'' = Inr l' \<Longrightarrow> l' = l"
  by (auto simp: step_def split: option.splits node.splits if_splits)

lemma step_dotdot: "step fs l ''..'' = Inr l' \<Longrightarrow> l' = butlast l"
  by (auto simp: step_def split: option.splits node.splits if_splits)

lemma step_dotdot_same: "step fs l c = Inr l' \<Longrightarrow> step fs l ''..'' = Inr (butlast l)"
  by (auto simp: step_def split: option.splits node.splits if_splits)

lemma step_dot_same: "step fs l c = Inr l' \<Longrightarrow> step fs l ''.'' = Inr l"
  by (auto simp: step_def split: option.splits node.splits if_splits)

lemma step_is_dir: "step fs l c = Inr l' \<Longrightarrow> is_dir_at fs l"
  by (auto simp: step_def is_dir_at_def split: option.splits node.splits if_splits)

lemma clean_steps:
  assumes "\<forall>c\<in>set cs. CHR ''/'' \<notin> set c" and "r \<longrightarrow> st0 = []"
  shows "canon r acc \<Longrightarrow> steps fs st0 acc = Inr cur
         \<Longrightarrow> steps fs cur (filter (\<lambda>c. c \<noteq> []) cs) = Inr loc
         \<Longrightarrow> steps fs st0 (foldl (clean_step r) acc cs) = Inr loc"
  using assms(1)
proof (induction cs arbitrary: acc cur)
  case Nil
  then show ?case by simp
next
  case (Cons c cs)
  have ns: "CHR ''/'' \<notin> set c" and rest: "\<forall>c\<in>set cs. CHR ''/'' \<notin> set c"
    using Cons.prems(4) by auto
  have cn: "canon r (clean_step r acc c)" using Cons.prems(1) ns by (rule canon_clean_step)
  show ?case
  proof (cases "c = []")
    case True
    then have "clean_step r acc c = acc" by (simp add: clean_step_def)
    with True Cons.IH [OF Cons.prems(1,2) _ rest] Cons.prems(3) show ?thesis by simp
  next
    case False
    then obtain cur' where st: "step fs cur c = Inr cur'"
      and more: "steps fs cur' (filter (\<lambda>c. c \<noteq> []) cs) = Inr loc"
      using Cons.prems(3) by (auto split: sum.splits)
    have "steps fs st0 (clean_step r acc c) = Inr cur'"
    proof (cases "c = ''.''")
      case True
      then show ?thesis using st Cons.prems(2) step_dot [of fs cur cur']
        by (simp add: clean_step_def)
    next
      case nd: False
      show ?thesis
      proof (cases "c = ''..''")
        case True
        with st have c': "cur' = butlast cur" using step_dotdot by blast
        show ?thesis
        proof (cases "acc \<noteq> [] \<and> last acc \<noteq> ''..''")
          case pop: True
          then obtain xs x where acc: "acc = xs @ [x]" and x: "x \<noteq> ''..''"
            by (cases acc rule: rev_cases) auto
          with Cons.prems(1) have vx: "valid_name x" by auto
          from Cons.prems(2) acc obtain l' where l: "steps fs st0 xs = Inr l'"
            and sx: "step fs l' x = Inr cur"
            by (auto simp: steps_snoc_Inr)
          from step_valid [OF vx sx] have "butlast cur = l'" by simp
          with pop True acc l c' show ?thesis by (simp add: clean_step_def)
        next
          case False
          show ?thesis
          proof (cases r)
            case True
            have "acc = []"
            proof (rule ccontr)
              assume ne: "acc \<noteq> []"
              with False have "last acc = ''..''" by simp
              moreover have "valid_name (last acc)"
                using canon_rooted_valid [of acc "last acc"] Cons.prems(1) True ne by simp
              ultimately show False by (simp add: valid_name_def)
            qed
            with Cons.prems(2) assms(2) True have "cur = []" by simp
            with \<open>acc = []\<close> True \<open>c = ''..''\<close> c' Cons.prems(2) show ?thesis
              by (simp add: clean_step_def)
          next
            case nr: False
            with False \<open>c = ''..''\<close> have "clean_step r acc c = acc @ [''..'']"
              by (auto simp: clean_step_def)
            then show ?thesis using Cons.prems(2) st \<open>c = ''..''\<close>
              by (simp add: steps_append)
          qed
        qed
      next
        case False
        with nd \<open>c \<noteq> []\<close> ns have "valid_name c" by (simp add: valid_name_def)
        then have "clean_step r acc c = acc @ [c]" by (rule clean_step_valid)
        then show ?thesis using Cons.prems(2) st by (simp add: steps_append)
      qed
    qed
    from Cons.IH [OF cn this more rest] show ?thesis by simp
  qed
qed

lemma components_render:
  "canon r out \<Longrightarrow> components (render r out) = (if \<not> r \<and> out = [] then [''.''] else out)"
  using split_render [of r out] by (simp add: components_def)

lemma start_render: "canon r out \<Longrightarrow> start fs (render r out) = (if r then [] else fs_cwd fs)"
  using render_rooted [of r out] render_nonempty [of r out] by (auto simp: start_def)

lemma last_render:
  "canon r out \<Longrightarrow> last (render r out) = CHR ''/'' \<Longrightarrow> r \<and> out = []"
proof -
  assume c: "canon r out" and l: "last (render r out) = CHR ''/''"
  show ?thesis
  proof (cases out rule: rev_cases)
    case Nil
    then show ?thesis using l by (auto simp: render_def split: if_splits)
  next
    case (snoc xs x)
    with canon_noslash [OF c, of x] have x: "x \<noteq> []" "CHR ''/'' \<notin> set x" by auto
    have "last (render r out) = last x"
      using snoc x by (auto simp: render_def join_slash_snoc)
    with l x show ?thesis by (metis last_in_set)
  qed
qed

lemma steps_first_dir: "cs \<noteq> [] \<Longrightarrow> steps fs l cs = Inr loc \<Longrightarrow> step fs l ''.'' = Inr l"
  by (cases cs) (auto split: sum.splits dest: step_dot_same)

lemma namei_Clean:
  assumes "namei fs s = Inr loc"
  shows "namei fs (Clean s) = Inr loc"
proof -
  from assms have s: "s \<noteq> []" by (auto simp: namei_def)
  let ?r = "hd s = CHR ''/''"
  let ?out = "foldl (clean_step ?r) [] (split_slash s)"
  from Clean_canon [of s] s have c: "canon ?r ?out" and cl: "Clean s = render ?r ?out"
    by auto
  from assms s have st: "steps fs (start fs s) (components s) = Inr loc"
    and ex: "lookup (fs_root fs) loc \<noteq> None"
    and tr: "last s = CHR ''/'' \<longrightarrow> is_dir_at fs loc"
    by (auto simp: namei_def split: sum.splits if_splits)
  have st0: "start fs s = (if ?r then [] else fs_cwd fs)" using s by (simp add: start_def)
  have cs: "steps fs (start fs s) ?out = Inr loc"
    by (rule clean_steps [where cur = "start fs s"])
      (use st st0 in \<open>auto simp: components_def dest: split_slash_elems\<close>)
  have nonempty: "components s \<noteq> []" if "\<not> ?r"
  proof -
    from s that obtain a t where "s = a # t" "a \<noteq> CHR ''/''" by (cases s) auto
    then show ?thesis by (auto simp: components_def split: list.splits)
  qed
  have steps': "steps fs (start fs s) (components (render ?r ?out)) = Inr loc"
  proof (cases "\<not> ?r \<and> ?out = []")
    case True
    then have o: "?out = []" and nr: "\<not> ?r" by blast+
    from cs o have "loc = start fs s" by simp
    moreover from nr nonempty st have "step fs (start fs s) ''.'' = Inr (start fs s)"
      using steps_first_dir by blast
    moreover have "components (render ?r ?out) = [''.'']"
      using components_render [OF c] o nr by simp
    ultimately show ?thesis by simp
  next
    case False
    then show ?thesis using cs c by (auto simp: components_render)
  qed
  have dir: "is_dir_at fs loc" if "last (render ?r ?out) = CHR ''/''"
  proof -
    from last_render [OF c that] have r: "?r" and o: "?out = []" by auto
    with cs st0 have l: "loc = []" by simp
    show ?thesis
    proof (cases "components s = []")
      case True
      have "last s = CHR ''/''"
      proof (rule ccontr)
        assume "last s \<noteq> CHR ''/''"
        then have "last (split_slash s) \<noteq> []"
          using s by (induction s) (auto split: list.splits if_splits)
        then have "last (split_slash s) \<in> set (components s)"
          by (simp add: components_def)
        with True show False by simp
      qed
      with tr show ?thesis by simp
    next
      case False
      with st st0 r have "step fs [] ''.'' = Inr []" using steps_first_dir by metis
      then show ?thesis using l step_is_dir by blast
    qed
  qed
  show ?thesis
    using c cl steps' ex dir st0 start_render [OF c, of fs]
    by (auto simp: namei_def)
qed

section \<open>Walks that differ in their visitors\<close>

lemma dir_names_set: "set (dir_names es) = {n \<in> fst ` set es. valid_name n}"
  by (auto simp: dir_names_def)

lemma dir_names_valid: "n \<in> set (dir_names es) \<Longrightarrow> valid_name n"
  by (simp add: dir_names_set)

lemma readDirNames_valid: "readDirNames p fs = (names, err) \<Longrightarrow> n \<in> set names \<Longrightarrow> valid_name n"
  by (auto simp: readDirNames_def dir_names_valid split: sum.splits option.splits node.splits if_splits)

lemma desc_root [simp]: "desc p p"
  unfolding desc_def pth_def by (rule exI [of _ "[]"]) simp

lemma desc_Join: "desc p q \<Longrightarrow> valid_name n \<Longrightarrow> desc p (Join q n)"
  unfolding desc_def pth_def
  apply clarify
  subgoal for ms by (rule exI [of _ "ms @ [n]"]) simp
  done

lemma walk_rel_aux:
  fixes f1 :: "'a WalkFunc" and f2 :: "'b WalkFunc"
  assumes cb: "\<And>path info err st1 st2. P path \<Longrightarrow> R st1 st2 \<Longrightarrow>
            (err = None \<longrightarrow> (\<exists>i. info = Some i \<and> os_Lstat path (fst st1) = Inr i)) \<Longrightarrow>
            fst (f1 path info err st1) = fst (f2 path info err st2)
            \<and> R (snd (f1 path info err st1)) (snd (f2 path info err st2))"
    and fs: "\<And>st1 st2. R st1 st2 \<Longrightarrow> fst st1 = fst st2"
    and pj: "\<And>q n. P q \<Longrightarrow> valid_name n \<Longrightarrow> P (Join q n)"
  shows "(\<forall>path info st1 st2. P path \<longrightarrow> R st1 st2 \<longrightarrow> os_Lstat path (fst st1) = Inr info \<longrightarrow>
            outcome_rel R (walk n path info f1 st1) (walk n path info f2 st2))
       \<and> (\<forall>path names st1 st2. P path \<longrightarrow> R st1 st2 \<longrightarrow> (\<forall>n\<in>set names. valid_name n) \<longrightarrow>
            outcome_rel R (walk_names n path names f1 st1) (walk_names n path names f2 st2))"
proof (induction n)
  case 0
  show ?case by (simp add: outcome_rel_def)
next
  case (Suc n)
  have names: "outcome_rel R (walk_names (Suc n) path names f1 st1) (walk_names (Suc n) path names f2 st2)"
    if "P path" "R st1 st2" "\<forall>n\<in>set names. valid_name n" for path names st1 st2
    using that
  proof (induction names arbitrary: st1 st2)
    case Nil
    then show ?case by (simp add: outcome_rel_def)
  next
    case (Cons name names)
    let ?fn = "Join path name"
    have pf: "P ?fn" using Cons.prems(1,3) by (auto intro: pj)
    have vs: "\<forall>n\<in>set names. valid_name n" using Cons.prems(3) by simp
    have eq: "fst st1 = fst st2" using Cons.prems(2) by (rule fs)
    show ?case
    proof (cases "os_Lstat ?fn (fst st1)")
      case (Inl e)
      obtain e1 s1 where a: "f1 ?fn None (Some e) st1 = (e1, s1)" by (metis surj_pair)
      obtain e2 s2 where b: "f2 ?fn None (Some e) st2 = (e2, s2)" by (metis surj_pair)
      from cb [OF pf Cons.prems(2), of "Some e" None] a b have ee: "e1 = e2" and rr: "R s1 s2" by auto
      show ?thesis using Inl eq a b ee rr Cons.IH [OF Cons.prems(1) rr vs]
        by (simp add: outcome_rel_def)
    next
      case (Inr fileInfo)
      from Suc pf Cons.prems(2) Inr
      have w: "outcome_rel R (walk n ?fn fileInfo f1 st1) (walk n ?fn fileInfo f2 st2)" by blast
      show ?thesis
      proof (cases "walk n ?fn fileInfo f1 st1")
        case None
        with w have "walk n ?fn fileInfo f2 st2 = None" by (simp add: outcome_rel_def)
        with None Inr eq show ?thesis by (simp add: outcome_rel_def)
      next
        case (Some r1)
        with w obtain r2 where r2: "walk n ?fn fileInfo f2 st2 = Some r2"
          and ee: "fst r1 = fst r2" and rr: "R (snd r1) (snd r2)"
          by (auto simp: outcome_rel_def option_rel_Some1)
        show ?thesis using Some r2 ee rr Inr eq Cons.IH [OF Cons.prems(1) rr vs]
          by (cases r1; cases r2) (simp add: outcome_rel_def)
      qed
    qed
  qed
  have "outcome_rel R (walk (Suc n) path info f1 st1) (walk (Suc n) path info f2 st2)"
    if "P path" "R st1 st2" "os_Lstat path (fst st1) = Inr info" for path info st1 st2
  proof -
    have eq: "fst st1 = fst st2" using that(2) by (rule fs)
    obtain nms err where rd: "readDirNames path (fst st2) = (nms, err)" by (metis surj_pair)
    have vs: "\<forall>n\<in>set nms. valid_name n" using readDirNames_valid [OF rd] by blast
    obtain e1 s1 where a: "f1 path (Some info) err st1 = (e1, s1)" by (metis surj_pair)
    obtain e2 s2 where b: "f2 path (Some info) err st2 = (e2, s2)" by (metis surj_pair)
    from cb [OF that(1,2), of err "Some info"] that(3) a b have ee: "e1 = e2" and rr: "R s1 s2" by auto
    obtain e1' s1' where a': "f1 path (Some info) None st1 = (e1', s1')" by (metis surj_pair)
    obtain e2' s2' where b': "f2 path (Some info) None st2 = (e2', s2')" by (metis surj_pair)
    from cb [OF that(1,2), of None "Some info"] that(3) a' b' have ee': "e1' = e2'" and rr': "R s1' s2'" by auto
    show ?thesis using eq rd a b ee rr a' b' ee' rr' names [OF that(1) rr vs]
      by (simp add: outcome_rel_def)
  qed
  with names show ?case by blast
qed

lemma Walk_rel:
  fixes w1 :: "Path \<Rightarrow> bool \<Rightarrow> fsys \<times> 'a \<Rightarrow> error option \<times> (fsys \<times> 'a)"
    and w2 :: "Path \<Rightarrow> bool \<Rightarrow> fsys \<times> 'b \<Rightarrow> error option \<times> (fsys \<times> 'b)"
  assumes w: "\<And>path i st1 st2. desc p path \<Longrightarrow> path \<noteq> p \<Longrightarrow> R st1 st2 \<Longrightarrow>
            os_Lstat path (fst st1) = Inr i \<Longrightarrow>
            \<not> (IsDir i \<and> wt = WalkFiles) \<Longrightarrow> \<not> (\<not> IsDir i \<and> wt = WalkDirs) \<Longrightarrow>
            fst (w1 path (IsDir i) st1) = fst (w2 path (IsDir i) st2)
            \<and> R (snd (w1 path (IsDir i) st1)) (snd (w2 path (IsDir i) st2))"
    and fs: "\<And>st1 st2. R st1 st2 \<Longrightarrow> fst st1 = fst st2"
    and r: "R st1 st2"
  shows "outcome_rel R (Walk fuel p wt w1 st1) (Walk fuel p wt w2 st2)"
proof -
  let ?f1 = "Walk_fn p wt w1" and ?f2 = "Walk_fn p wt w2"
  have cb: "fst (?f1 path info err s1) = fst (?f2 path info err s2)
            \<and> R (snd (?f1 path info err s1)) (snd (?f2 path info err s2))"
    if "desc p path" "R s1 s2" "err = None \<longrightarrow> (\<exists>i. info = Some i \<and> os_Lstat path (fst s1) = Inr i)"
    for path info err s1 s2
  proof (cases err)
    case (Some e)
    then show ?thesis using that(2) by (simp add: Walk_fn_def)
  next
    case None
    with that(3) obtain i where i: "info = Some i" "os_Lstat path (fst s1) = Inr i" by blast
    show ?thesis
      using None i that(2) w [OF that(1) _ that(2) i(2)]
      by (auto simp: Walk_fn_def Let_def)
  qed
  note aux = walk_rel_aux [where P = "desc p" and R = R and ?f1.0 = ?f1 and ?f2.0 = ?f2,
      OF cb fs desc_Join, of fuel]
  have eq: "fst st1 = fst st2" using r by (rule fs)
  show ?thesis
  proof (cases "DirExists p (fst st1)")
    case False
    then show ?thesis using eq r by (simp add: Walk_def outcome_rel_def)
  next
    case True
    show ?thesis
    proof (cases "os_Lstat p (fst st1)")
      case (Inl e)
      from cb [OF desc_root r, of "Some e" None]
      show ?thesis using True eq Inl
        by (auto simp: Walk_def filepath_Walk_def outcome_rel_def split: prod.splits)
    next
      case (Inr info)
      from aux have "\<forall>path info st1 st2. desc p path \<longrightarrow> R st1 st2 \<longrightarrow>
            os_Lstat path (fst st1) = Inr info \<longrightarrow>
            outcome_rel R (walk fuel path info ?f1 st1) (walk fuel path info ?f2 st2)" ..
      with r Inr have "outcome_rel R (walk fuel p info ?f1 st1) (walk fuel p info ?f2 st2)"
        using desc_root by blast
      then show ?thesis using True eq Inr
        by (auto simp: Walk_def filepath_Walk_def outcome_rel_def option_rel_Some1
            split: option.splits prod.splits)
    qed
  qed
qed

section \<open>Directories and their entries\<close>

lemma dir_names_distinct: "distinct (dir_names es)"
  by (simp add: dir_names_def)

lemma dir_names_iff: "n \<in> set (dir_names es) \<longleftrightarrow> valid_name n \<and> map_of es n \<noteq> None"
  by (auto simp: dir_names_set map_of_eq_None_iff)

lemma dir_names_child: "n \<in> set (dir_names es) \<Longrightarrow> \<exists>ch. map_of es n = Some ch"
  by (auto simp: dir_names_iff)

lemma height_child:
  "map_of es n = Some ch \<Longrightarrow> valid_name n \<Longrightarrow> height ch < height (Dir m es)"
proof -
  assume a: "map_of es n = Some ch" and v: "valid_name n"
  then have "n \<in> set (dir_names es)" by (simp add: dir_names_iff)
  then have "height ch \<in> set (0 # map (\<lambda>n. case map_of es n of None \<Rightarrow> 0 | Some ch \<Rightarrow> height ch) (dir_names es))"
    using a by force
  then have "height ch \<le> Max (set (0 # map (\<lambda>n. case map_of es n of None \<Rightarrow> 0 | Some ch \<Rightarrow> height ch) (dir_names es)))"
    by (intro Max_ge) auto
  then show ?thesis by simp
qed

lemma accessible_child:
  "accessible (Dir m es) \<Longrightarrow> map_of es n = Some ch \<Longrightarrow> valid_name n \<Longrightarrow> accessible ch"
  by (auto simp: dir_names_iff split: option.splits)

lemma accessible_Dir: "accessible (Dir m es) \<Longrightarrow> owner_r m \<and> owner_x m"
  by simp

declare height.simps(2) [simp del] accessible.simps(2) [simp del]

lemma lookup_append:
  "lookup nd (xs @ ys) = (case lookup nd xs of None \<Rightarrow> None | Some nd' \<Rightarrow> lookup nd' ys)"
  by (induction nd xs rule: lookup.induct) (auto split: option.splits)

lemma lookup_snoc_child:
  "lookup nd loc = Some (Dir m es) \<Longrightarrow> lookup nd (loc @ [n]) = map_of es n"
  by (simp add: lookup_append split: option.splits)

lemma step_child:
  "lookup (fs_root fs) loc = Some (Dir m es) \<Longrightarrow> valid_name n \<Longrightarrow>
     step fs loc n = (if \<not> owner_x m then Inl EACCES
                      else case map_of es n of None \<Rightarrow> Inl ENOENT | Some ch \<Rightarrow> Inr (loc @ [n]))"
  by (simp add: step_def valid_name_def)

lemma namei_Join:
  assumes "namei fs p = Inr loc" and "valid_name n"
  shows "namei fs (Join p n) = step fs loc n"
proof -
  from assms(1) have p: "p \<noteq> []" by (auto simp: namei_def)
  let ?r = "hd p = CHR ''/''"
  let ?out = "foldl (clean_step ?r) [] (split_slash p)"
  from Clean_canon [of p] p have c: "canon ?r ?out" and cl: "Clean p = render ?r ?out" by auto
  have j: "Join p n = render ?r (?out @ [n])" using Join_general [OF p assms(2)] .
  have cj: "canon ?r (?out @ [n])" using c assms(2) by simp
  from namei_Clean [OF assms(1)] cl have nc: "namei fs (render ?r ?out) = Inr loc" by simp
  have st: "start fs (render ?r ?out) = start fs (render ?r (?out @ [n]))"
    using start_render [OF c] start_render [OF cj] by simp
  have so: "steps fs (start fs (render ?r ?out)) ?out = Inr loc"
  proof (cases "\<not> ?r \<and> ?out = []")
    case True
    then have o: "?out = []" and nr: "\<not> ?r" by blast+
    have "components (render ?r ?out) = [''.'']" using components_render [OF c] o nr by simp
    with nc have "steps fs (start fs (render ?r ?out)) [''.''] = Inr loc"
      by (auto simp: namei_def split: sum.splits if_splits)
    then have "loc = start fs (render ?r ?out)" by (auto split: sum.splits dest: step_dot)
    with o show ?thesis by simp
  next
    case False
    with nc components_render [OF c] show ?thesis
      by (auto simp: namei_def split: sum.splits if_splits)
  qed
  have ex: "lookup (fs_root fs) loc \<noteq> None"
    using assms(1) by (auto simp: namei_def split: sum.splits if_splits)
  have nl: "last (render ?r (?out @ [n])) \<noteq> CHR ''/''"
    using last_render [OF cj] by auto
  have ne: "render ?r (?out @ [n]) \<noteq> []" using render_nonempty [OF cj] .
  have "namei fs (render ?r (?out @ [n])) = step fs loc n"
  proof (cases "step fs loc n")
    case (Inl e)
    then show ?thesis using so st ne components_render [OF cj]
      by (simp add: namei_def steps_append)
  next
    case (Inr l')
    then obtain m es ch where d: "lookup (fs_root fs) loc = Some (Dir m es)"
      and ch: "map_of es n = Some ch" and l': "l' = loc @ [n]"
      using assms(2)
      by (auto simp: step_def valid_name_def split: option.splits node.splits if_splits)
    have "lookup (fs_root fs) (loc @ [n]) = Some ch" using lookup_snoc_child [OF d] ch by simp
    then show ?thesis using Inr l' so st ne nl components_render [OF cj]
      by (simp add: namei_def steps_append)
  qed
  with j show ?thesis by simp
qed

lemma Lstat_Join:
  assumes "namei fs p = Inr loc" and "lookup (fs_root fs) loc = Some (Dir m es)"
    and "valid_name n"
  shows "os_Lstat (Join p n) fs =
           (if \<not> owner_x m then Inl (refusal (Join p n) EACCES)
            else case map_of es n of
                   None \<Rightarrow> Inl (refusal (Join p n) ENOENT)
                 | Some ch \<Rightarrow> Inr (info_of ch))"
  using namei_Join [OF assms(1,3)] step_child [OF assms(2,3)] lookup_snoc_child [OF assms(2), of n]
  by (auto simp: os_Lstat_def os_Stat_def split: option.splits)

lemma readDirNames_dir:
  "namei fs p = Inr loc \<Longrightarrow> lookup (fs_root fs) loc = Some (Dir m es) \<Longrightarrow>
     readDirNames p fs = (if \<not> owner_r m then ([], Some EACCES) else (dir_names es, None))"
  by (simp add: readDirNames_def)

section \<open>Logs, invariants and counts\<close>

lemma pth_Nil [simp]: "pth p [] = p"
  by (simp add: pth_def)

lemma pth_snoc [simp]: "pth p (ms @ [n]) = Join (pth p ms) n"
  by (simp add: pth_def)

lemma pth_append: "pth p (ms @ ns) = pth (pth p ms) ns"
  by (simp add: pth_def)

lemma pth_render:
  assumes "p \<noteq> []" and "\<forall>n\<in>set ms. valid_name n" and "ms \<noteq> []"
  shows "pth p ms = render (hd p = CHR ''/'')
                      (foldl (clean_step (hd p = CHR ''/'')) [] (split_slash p) @ ms)"
  using assms(3,2)
proof (induction ms rule: rev_nonempty_induct)
  case (single n)
  then show ?case using Join_general [OF assms(1), of n] by (simp add: pth_def)
next
  case (snoc n ms)
  let ?r = "hd p = CHR ''/''"
  let ?out = "foldl (clean_step ?r) [] (split_slash p)"
  from Clean_canon [of p] assms(1) have "canon ?r ?out" by auto
  then have "canon ?r (?out @ ms)" using snoc.prems by (intro canon_append_valid) auto
  then have "Join (render ?r (?out @ ms)) n = render ?r ((?out @ ms) @ [n])"
    using snoc.prems by (intro Join_render) auto
  then show ?case using snoc by simp
qed

lemma Clean_fixed_nonempty: "Clean p = p \<Longrightarrow> p \<noteq> []"
  by (auto simp: Clean_def)

lemma desc_prefix:
  assumes "Clean src = src" and "src \<noteq> ''.''" and "desc src path" and "path \<noteq> src"
  shows "prefix src path"
proof -
  have ne: "src \<noteq> []" using assms(1) by (rule Clean_fixed_nonempty)
  let ?r = "hd src = CHR ''/''"
  let ?out = "foldl (clean_step ?r) [] (split_slash src)"
  from Clean_canon [of src] ne assms(1) have c: "canon ?r ?out" and cl: "src = render ?r ?out"
    by auto
  from assms(3) obtain ms where v: "\<forall>n\<in>set ms. valid_name n" and p: "path = pth src ms"
    by (auto simp: desc_def)
  have ms: "ms \<noteq> []" using p assms(4) by auto
  have "?r \<or> ?out \<noteq> []" using cl assms(2) by (auto simp: render_def split: if_splits)
  from render_prefix [OF c this ms] obtain rest
    where "render ?r (?out @ ms) = render ?r ?out @ rest" by blast
  with pth_render [OF ne v ms] p cl show ?thesis by (metis prefixI)
qed

lemma Replace1_prefix: "prefix old s \<Longrightarrow> Replace1 s old new = new @ drop (length old) s"
  by (cases s) auto

lemma outcome_rel_SomeD:
  "outcome_rel R x y \<Longrightarrow> x = Some (e, s) \<Longrightarrow> \<exists>s'. y = Some (e, s') \<and> R s s'"
  by (cases y) (auto simp: outcome_rel_def)

lemma outcome_rel_SomeD2:
  "outcome_rel R x y \<Longrightarrow> y = Some (e, s') \<Longrightarrow> \<exists>s. x = Some (e, s) \<and> R s s'"
  by (cases x) (auto simp: outcome_rel_def)

lemma outcome_rel_None: "outcome_rel R x y \<Longrightarrow> (x = None) = (y = None)"
  by (cases x; cases y) (auto simp: outcome_rel_def)

text \<open>Logging does not change what a walk does.\<close>

lemma Walk_logged_rel:
  "outcome_rel (\<lambda>s1 s2. fst s1 = fst s2 \<and> snd (snd s1) = snd s2)
     (Walk fuel p wt (logged w) (fs, (log0, s))) (Walk fuel p wt w (fs, s))"
  by (rule Walk_rel) (auto simp: logged_def split: prod.splits)

lemma Walk_logged:
  "map_option (\<lambda>r. (fst r, (fst (snd r), snd (snd (snd r))))) (Walk fuel p wt (logged w) (fs, (log0, s)))
     = Walk fuel p wt w (fs, s)"
  using Walk_logged_rel [of fuel p wt w fs log0 s]
  by (cases "Walk fuel p wt (logged w) (fs, (log0, s))"; cases "Walk fuel p wt w (fs, s)")
    (auto simp: outcome_rel_def)

text \<open>An invariant of the state is kept by a walk whose visitor keeps it.\<close>

lemma Walk_invariant:
  assumes w: "\<And>path i st. desc p path \<Longrightarrow> path \<noteq> p \<Longrightarrow> I st \<Longrightarrow>
            os_Lstat path (fst st) = Inr i \<Longrightarrow>
            \<not> (IsDir i \<and> wt = WalkFiles) \<Longrightarrow> \<not> (\<not> IsDir i \<and> wt = WalkDirs) \<Longrightarrow>
            I (snd (w path (IsDir i) st))"
    and "I st" and "Walk fuel p wt w st = Some (err, st')"
  shows "I st'"
proof -
  have "outcome_rel (\<lambda>s1 s2. s1 = s2 \<and> I s1) (Walk fuel p wt w st) (Walk fuel p wt w st)"
    by (rule Walk_rel) (use w assms(2) in auto)
  from outcome_rel_SomeD [OF this assms(3)] show ?thesis by auto
qed

lemma Walk_log_desc:
  assumes "Walk fuel p wt (logged w) (fs, ([], s)) = Some (err, (fs', (log, s')))"
  shows "\<forall>e\<in>set log. desc p (fst e) \<and> fst e \<noteq> p"
proof -
  let ?I = "\<lambda>st :: fsys \<times> ((Path \<times> bool) list \<times> 'a). \<forall>e\<in>set (fst (snd st)). desc p (fst e) \<and> fst e \<noteq> p"
  have "?I (fs', (log, s'))"
    by (rule Walk_invariant [where I = ?I, OF _ _ assms])
      (auto simp: logged_def split: prod.splits)
  then show ?thesis by simp
qed

text \<open>
  For a source root in cleaned form other than \<open>.\<close>, every entry that the tree copy visits
  has the source root as a prefix of its path, and the first-occurrence replacement is the
  replacement of that prefix.
\<close>

lemma copyDirs_destinations:
  assumes "Clean src = src" and "src \<noteq> ''.''"
    and "Walk fuel src WalkBoth (logged (copyDirs_fn src dest)) (fs, ([], ())) = Some (err, (fs', (log, u)))"
  shows "\<forall>(path, isDirectory)\<in>set log.
           prefix src path \<and> Replace1 path src dest = dest @ drop (length src) path"
  using Walk_log_desc [OF assms(3)] desc_prefix [OF assms(1,2)] Replace1_prefix
  by fastforce

text \<open>Files only: no directory is delivered. Directories only: no file is delivered.\<close>

lemma Lstat_FileExists: "os_Lstat path fs = Inr i \<Longrightarrow> \<not> IsDir i \<Longrightarrow> FileExists path fs"
  by (simp add: os_Lstat_def FileExists_def Info_def IsRegular_def)

lemma Lstat_DirExists: "os_Lstat path fs = Inr i \<Longrightarrow> IsDir i \<Longrightarrow> DirExists path fs"
  by (simp add: os_Lstat_def DirExists_def Info_def)

lemma Walk_accept_fs:
  assumes "Walk fuel p wt (logged accept) (fs, (log0, u0)) = Some (err, (fs', (log, u)))"
  shows "fs' = fs"
proof -
  let ?I = "\<lambda>st :: fsys \<times> ((Path \<times> bool) list \<times> unit). fst st = fs"
  have "?I (fs', (log, u))"
    by (rule Walk_invariant [where I = ?I, OF _ _ assms]) (auto simp: logged_def accept_def)
  then show ?thesis by simp
qed

lemma Walk_files_only:
  assumes "Walk fuel p WalkFiles (logged accept) (fs, ([], ())) = Some (err, (fs', (log, u)))"
  shows "\<forall>(path, isDirectory)\<in>set log. \<not> isDirectory \<and> FileExists path fs"
proof -
  let ?I = "\<lambda>st :: fsys \<times> ((Path \<times> bool) list \<times> unit).
      fst st = fs \<and> (\<forall>(path, d)\<in>set (fst (snd st)). \<not> d \<and> FileExists path fs)"
  have "?I (fs', (log, u))"
    by (rule Walk_invariant [where I = ?I, OF _ _ assms])
      (auto simp: logged_def accept_def dest: Lstat_FileExists)
  then show ?thesis by simp
qed

lemma Walk_dirs_only:
  assumes "Walk fuel p WalkDirs (logged accept) (fs, ([], ())) = Some (err, (fs', (log, u)))"
  shows "\<forall>(path, isDirectory)\<in>set log. isDirectory \<and> DirExists path fs"
proof -
  let ?I = "\<lambda>st :: fsys \<times> ((Path \<times> bool) list \<times> unit).
      fst st = fs \<and> (\<forall>(path, d)\<in>set (fst (snd st)). d \<and> DirExists path fs)"
  have "?I (fs', (log, u))"
    by (rule Walk_invariant [where I = ?I, OF _ _ assms])
      (auto simp: logged_def accept_def dest: Lstat_DirExists)
  then show ?thesis by simp
qed

text \<open>Counting and logging see the same entries.\<close>

lemma Walk_Count_rel:
  "outcome_rel (\<lambda>s1 s2. fst s1 = fst s2 \<and> snd s1 = c0 + of_nat (length (fst (snd s2))))
     (Walk fuel p wt Count_fn (fs, c0)) (Walk fuel p wt (logged accept) (fs, ([], ())))"
  by (rule Walk_rel) (auto simp: logged_def accept_def Count_fn_def)

lemma Count_length:
  assumes "Walk fuel p wt (logged accept) (fs, ([], ())) = Some (err, (fs', (log, u)))"
  shows "Count fuel p wt fs = Some (of_nat (length log))"
proof -
  from outcome_rel_SomeD2 [OF Walk_Count_rel assms, of 0]
  obtain s where "Walk fuel p wt Count_fn (fs, 0) = Some (err, s)" and "snd s = of_nat (length log)"
    by auto
  then show ?thesis
    by (auto simp: Count_def Walk_def split: if_splits)
qed

section \<open>Walks of a file system that does not change\<close>

lemma pth_canon:
  assumes "p \<noteq> []" and "\<forall>n\<in>set ms. valid_name n"
  shows "canon (hd p = CHR ''/'') (foldl (clean_step (hd p = CHR ''/'')) [] (split_slash p) @ ms)"
proof -
  from Clean_canon [of p] assms(1)
  have "canon (hd p = CHR ''/'') (foldl (clean_step (hd p = CHR ''/'')) [] (split_slash p))" by auto
  then show ?thesis using assms(2) by (rule canon_append_valid)
qed

lemma Clean_eq_render:
  "p \<noteq> [] \<Longrightarrow> Clean p = render (hd p = CHR ''/'') (foldl (clean_step (hd p = CHR ''/'')) [] (split_slash p))"
  using Clean_canon [of p] by auto

lemma pth_ne:
  assumes "p \<noteq> []" and "\<forall>n\<in>set ms. valid_name n" and "ms \<noteq> []"
  shows "pth p ms \<noteq> p"
proof
  let ?r = "hd p = CHR ''/''"
  let ?out = "foldl (clean_step ?r) [] (split_slash p)"
  assume eq: "pth p ms = p"
  with pth_render [OF assms] have p: "p = render ?r (?out @ ms)" by simp
  have c: "canon ?r (?out @ ms)" using pth_canon [OF assms(1,2)] .
  have c0: "canon ?r ?out" using pth_canon [OF assms(1), of "[]"] by simp
  have "Clean p = p" using Clean_render [OF c] p by simp
  with Clean_eq_render [OF assms(1)] p have "render ?r ?out = render ?r (?out @ ms)" by simp
  from render_inject [OF c0 c this] assms(3) show False by simp
qed

lemma Dirname_pth1:
  assumes "p \<noteq> []" and "valid_name n"
  shows "Dirname (pth p [n]) = Clean p"
proof -
  have "pth p [n] = render (hd p = CHR ''/'') (foldl (clean_step (hd p = CHR ''/'')) [] (split_slash p) @ [n])"
    using pth_render [OF assms(1), of "[n]"] assms(2) by simp
  then show ?thesis
    using Parent_render [OF pth_canon [OF assms(1), of "[]"] assms(2)] Clean_eq_render [OF assms(1)]
    by (simp add: Dirname_def)
qed

lemma Dirname_pth2:
  assumes "p \<noteq> []" and "valid_name a" and "valid_name b"
  shows "Dirname (pth p [a, b]) \<noteq> p"
proof
  let ?r = "hd p = CHR ''/''"
  let ?out = "foldl (clean_step ?r) [] (split_slash p)"
  assume eq: "Dirname (pth p [a, b]) = p"
  have "pth p [a, b] = render ?r ((?out @ [a]) @ [b])"
    using pth_render [OF assms(1), of "[a, b]"] assms(2,3) by simp
  moreover have ca: "canon ?r (?out @ [a])" using pth_canon [OF assms(1), of "[a]"] assms(2) by simp
  ultimately have "Dirname (pth p [a, b]) = render ?r (?out @ [a])"
    using Parent_render [OF ca assms(3)] by (simp add: Dirname_def)
  moreover have "render ?r (?out @ [a]) = pth p [a]"
    using pth_render [OF assms(1), of "[a]"] assms(2) by simp
  ultimately have "pth p [a] = p" using eq by simp
  with pth_ne [OF assms(1), of "[a]"] assms(2) show False by simp
qed

text \<open>The callback of \<open>Walk\<close> around the logging visitor.\<close>

lemma Walk_fn_root [simp]: "Walk_fn p wt w p (Some i) None st = (None, st)"
  by (simp add: Walk_fn_def)

lemma Walk_fn_deliver:
  "path \<noteq> p \<Longrightarrow> \<not> (IsDir i \<and> wt = WalkFiles) \<Longrightarrow> \<not> (\<not> IsDir i \<and> wt = WalkDirs) \<Longrightarrow>
     Walk_fn p wt (logged accept) path (Some i) None (fs, (log, u))
       = (None, (fs, (log @ [(path, IsDir i)], u)))"
  by (auto simp: Walk_fn_def logged_def accept_def Let_def)

lemma Walk_fn_skip_dir:
  "path \<noteq> p \<Longrightarrow> IsDir i \<Longrightarrow>
     Walk_fn p WalkFiles w path (Some i) None st
       = (if Dirname path = p then None else Some SkipDir, st)"
  by (auto simp: Walk_fn_def Let_def)

lemma IsDir_info_of [simp]: "IsDir (info_of nd) = is_Dir nd"
  by (cases nd) auto

lemma walk_names_both:
  assumes ok: "both_ok fs p loc0 n"
    and v: "\<forall>x\<in>set ms. valid_name x"
    and nm: "namei fs (pth p ms) = Inr (loc0 @ ms)"
    and d: "lookup (fs_root fs) (loc0 @ ms) = Some (Dir m es)"
    and acc: "accessible (Dir m es)" and h: "height (Dir m es) \<le> n"
  shows "set names \<subseteq> set (dir_names es) \<Longrightarrow>
     walk_names (Suc n) (pth p ms) names (Walk_fn p WalkBoth (logged accept)) (fs, (log, ()))
       = Some (None, (fs, (log @ concat (map (below_child p ms es) names), ())))"
proof (induction names arbitrary: log)
  case Nil
  then show ?case by simp
next
  case (Cons name names)
  then have mem: "name \<in> set (dir_names es)" and rest: "set names \<subseteq> set (dir_names es)" by auto
  from mem have vn: "valid_name name" by (rule dir_names_valid)
  from mem obtain ch where ch: "map_of es name = Some ch" using dir_names_child by blast
  have x: "owner_x m" using accessible_Dir [OF acc] by simp
  have ls: "os_Lstat (Join (pth p ms) name) fs = Inr (info_of ch)"
    using Lstat_Join [OF nm d vn] x ch by simp
  have nm': "namei fs (pth p (ms @ [name])) = Inr (loc0 @ ms @ [name])"
    using namei_Join [OF nm vn] step_child [OF d vn] x ch by simp
  have lk: "lookup (fs_root fs) (loc0 @ ms @ [name]) = Some ch"
    using lookup_snoc_child [OF d, of name] ch by simp
  have ac: "accessible ch" using accessible_child [OF acc ch vn] .
  have hc: "height ch < n" using height_child [OF ch vn, of m] h by simp
  have v': "\<forall>x\<in>set (ms @ [name]). valid_name x" using v vn by simp
  have w: "walk n (pth p (ms @ [name])) (info_of ch) (Walk_fn p WalkBoth (logged accept)) (fs, (log, ()))
      = Some (None, (fs, (log @ (pth p (ms @ [name]), is_Dir ch)
            # map (\<lambda>(ms', d). (pth p ((ms @ [name]) @ ms'), d)) (entries_below ch), ())))"
    using ok [unfolded both_ok_def, rule_format, of "ms @ [name]" ch log] v' lk nm' ac hc
    by simp
  show ?case
    using ls w Cons.IH [OF rest] ch
    by (simp add: below_child_def)
qed

lemma entries_below_Dir:
  "map (\<lambda>(ms', d). (pth p (ms @ ms'), d)) (entries_below (Dir m es))
     = concat (map (below_child p ms es) (dir_names es))"
proof -
  have "map (\<lambda>(ms', d). (pth p (ms @ ms'), d))
          (case map_of es x of
             None \<Rightarrow> []
           | Some ch \<Rightarrow> ([x], is_Dir ch) # map (\<lambda>(ms, d). (x # ms, d)) (entries_below ch))
        = below_child p ms es x" for x
    by (auto simp: below_child_def split: option.splits)
  then show ?thesis by (simp add: map_concat comp_def)
qed

declare entries_below.simps(2) [simp del]

lemma both_ok_all: "p \<noteq> [] \<Longrightarrow> both_ok fs p loc0 n"
proof (induction n)
  case 0
  show ?case by (simp add: both_ok_def)
next
  case (Suc n)
  note ok = Suc.IH [OF Suc.prems]
  show ?case
    unfolding both_ok_def
  proof (intro allI impI)
    fix ms nd log
    assume ms: "ms \<noteq> []" and v: "\<forall>x\<in>set ms. valid_name x"
      and lk: "lookup (fs_root fs) (loc0 @ ms) = Some nd"
      and nm: "namei fs (pth p ms) = Inr (loc0 @ ms)"
      and acc: "accessible nd" and h: "height nd < Suc n"
    have ne: "pth p ms \<noteq> p" using pth_ne [OF Suc.prems v ms] .
    show "walk (Suc n) (pth p ms) (info_of nd) (Walk_fn p WalkBoth (logged accept)) (fs, (log, ()))
          = Some (None, (fs, (log @ (pth p ms, is_Dir nd)
                # map (\<lambda>(ms', d). (pth p (ms @ ms'), d)) (entries_below nd), ())))"
    proof (cases nd)
      case (File m d)
      then show ?thesis using Walk_fn_deliver [OF ne, of "info_of nd" WalkBoth fs log "()"]
        by simp
    next
      case (Dir m es)
      have rd: "readDirNames (pth p ms) fs = (dir_names es, None)"
        using readDirNames_dir [OF nm] lk Dir acc accessible_Dir by simp
      have dl: "Walk_fn p WalkBoth (logged accept) (pth p ms) (Some (info_of nd)) None (fs, (log, ()))
          = (None, (fs, (log @ [(pth p ms, True)], ())))"
        using Walk_fn_deliver [OF ne, of "info_of nd" WalkBoth fs log "()"] Dir by simp
      have "walk_names (Suc n) (pth p ms) (dir_names es) (Walk_fn p WalkBoth (logged accept))
              (fs, (log @ [(pth p ms, True)], ()))
            = Some (None, (fs, ((log @ [(pth p ms, True)])
                @ concat (map (below_child p ms es) (dir_names es)), ())))"
        by (rule walk_names_both [OF ok v nm]) (use lk Dir acc h in auto)
      then show ?thesis using Dir rd dl by (simp add: entries_below_Dir)
    qed
  qed
qed

lemma Walk_both_all:
  assumes nm: "namei fs p = Inr loc0" and lk: "lookup (fs_root fs) loc0 = Some (Dir m es)"
    and acc: "accessible (Dir m es)" and h: "height (Dir m es) < fuel"
  shows "Walk fuel p WalkBoth (logged accept) (fs, ([], ()))
           = Some (None, (fs, (map (\<lambda>(ms, d). (pth p ms, d)) (entries_below (Dir m es)), ())))"
proof -
  from nm have p: "p \<noteq> []" by (auto simp: namei_def)
  obtain n where fuel: "fuel = Suc n" using h by (cases fuel) auto
  have de: "DirExists p fs" using nm lk by (simp add: DirExists_def Info_def os_Stat_def)
  have ls: "os_Lstat p fs = Inr (info_of (Dir m es))"
    using nm lk by (simp add: os_Lstat_def os_Stat_def)
  have rd: "readDirNames p fs = (dir_names es, None)"
    using readDirNames_dir [OF nm lk] accessible_Dir [OF acc] by simp
  have "walk_names (Suc n) (pth p []) (dir_names es) (Walk_fn p WalkBoth (logged accept)) (fs, ([], ()))
        = Some (None, (fs, ([] @ concat (map (below_child p [] es) (dir_names es)), ())))"
    by (rule walk_names_both [OF both_ok_all [OF p]]) (use nm lk acc h fuel in auto)
  then have "walk (Suc n) p (info_of (Dir m es)) (Walk_fn p WalkBoth (logged accept)) (fs, ([], ()))
        = Some (None, (fs, (concat (map (below_child p [] es) (dir_names es)), ())))"
    using rd by simp
  then show ?thesis
    using de ls fuel entries_below_Dir [of p "[]" m es]
    by (simp add: Walk_def filepath_Walk_def)
qed

text \<open>Files only, from a root in cleaned form.\<close>

lemma walk_names_files2:
  assumes p: "p \<noteq> []" and v1: "valid_name n1"
    and nm: "namei fs (pth p [n1]) = Inr (loc0 @ [n1])"
    and d: "lookup (fs_root fs) (loc0 @ [n1]) = Some (Dir m1 es1)"
    and acc: "accessible (Dir m1 es1)"
  shows "set names \<subseteq> set (dir_names es1) \<Longrightarrow>
     walk_names (Suc (Suc k)) (pth p [n1]) names (Walk_fn p WalkFiles (logged accept)) (fs, (log, ()))
       = Some (None, (fs, (log @ concat (map (file_child p [n1] es1) names), ())))"
proof (induction names arbitrary: log)
  case Nil
  then show ?case by simp
next
  case (Cons name names)
  then have mem: "name \<in> set (dir_names es1)" and rest: "set names \<subseteq> set (dir_names es1)" by auto
  from mem have vn: "valid_name name" by (rule dir_names_valid)
  from mem obtain ch where ch: "map_of es1 name = Some ch" using dir_names_child by blast
  have x: "owner_x m1" using accessible_Dir [OF acc] by simp
  have ls: "os_Lstat (Join (pth p [n1]) name) fs = Inr (info_of ch)"
    using Lstat_Join [OF nm d vn] x ch by simp
  have nm': "namei fs (pth p [n1, name]) = Inr (loc0 @ [n1, name])"
    using namei_Join [OF nm vn] step_child [OF d vn] x ch by (simp add: pth_def)
  have lk: "lookup (fs_root fs) (loc0 @ [n1, name]) = Some ch"
    using lookup_snoc_child [OF d, of name] ch by simp
  have ac: "accessible ch" using accessible_child [OF acc ch vn] .
  have ne: "pth p [n1, name] \<noteq> p" using pth_ne [OF p, of "[n1, name]"] v1 vn by simp
  have j: "Join (pth p [n1]) name = pth p [n1, name]" by (simp add: pth_def)
  show ?case
  proof (cases ch)
    case (File fm fd)
    have "walk (Suc k) (pth p [n1, name]) (info_of ch) (Walk_fn p WalkFiles (logged accept)) (fs, (log, ()))
        = Some (None, (fs, (log @ [(pth p [n1, name], False)], ())))"
      using File Walk_fn_deliver [OF ne, of "info_of ch" WalkFiles fs log "()"] by simp
    then show ?thesis using ls j ch File Cons.IH [OF rest] by (simp add: file_child_def)
  next
    case (Dir m2 es2)
    have rd: "readDirNames (pth p [n1, name]) fs = (dir_names es2, None)"
      using readDirNames_dir [OF nm'] lk Dir ac accessible_Dir by simp
    have sk: "Walk_fn p WalkFiles (logged accept) (pth p [n1, name]) (Some (info_of ch)) None (fs, (log, ()))
        = (Some SkipDir, (fs, (log, ())))"
      using Walk_fn_skip_dir [OF ne, of "info_of ch"] Dir Dirname_pth2 [OF p v1 vn] by simp
    have "walk (Suc k) (pth p [n1, name]) (info_of ch) (Walk_fn p WalkFiles (logged accept)) (fs, (log, ()))
        = Some (Some SkipDir, (fs, (log, ())))"
      using Dir rd sk by simp
    then show ?thesis using ls j ch Dir Cons.IH [OF rest] by (simp add: file_child_def)
  qed
qed

lemma walk_names_files1:
  assumes p: "p \<noteq> []" and cl: "Clean p = p"
    and nm: "namei fs p = Inr loc0"
    and d: "lookup (fs_root fs) loc0 = Some (Dir m es)"
    and acc: "accessible (Dir m es)"
  shows "set names \<subseteq> set (dir_names es) \<Longrightarrow>
     walk_names (Suc (Suc (Suc k))) p names (Walk_fn p WalkFiles (logged accept)) (fs, (log, ()))
       = Some (None, (fs, (log @ concat (map (files_child2 p es) names), ())))"
proof (induction names arbitrary: log)
  case Nil
  then show ?case by simp
next
  case (Cons name names)
  then have mem: "name \<in> set (dir_names es)" and rest: "set names \<subseteq> set (dir_names es)" by auto
  from mem have vn: "valid_name name" by (rule dir_names_valid)
  from mem obtain ch where ch: "map_of es name = Some ch" using dir_names_child by blast
  have x: "owner_x m" using accessible_Dir [OF acc] by simp
  have j: "Join p name = pth p [name]" by (simp add: pth_def)
  have ls: "os_Lstat (pth p [name]) fs = Inr (info_of ch)"
    using Lstat_Join [OF nm d vn] x ch j by simp
  have nm': "namei fs (pth p [name]) = Inr (loc0 @ [name])"
    using namei_Join [OF nm vn] step_child [OF d vn] x ch j by simp
  have lk: "lookup (fs_root fs) (loc0 @ [name]) = Some ch"
    using lookup_snoc_child [OF d, of name] ch by simp
  have ac: "accessible ch" using accessible_child [OF acc ch vn] .
  have ne: "pth p [name] \<noteq> p" using pth_ne [OF p, of "[name]"] vn by simp
  show ?case
  proof (cases ch)
    case (File fm fd)
    have "walk (Suc (Suc k)) (pth p [name]) (info_of ch) (Walk_fn p WalkFiles (logged accept)) (fs, (log, ()))
        = Some (None, (fs, (log @ [(pth p [name], False)], ())))"
      using File Walk_fn_deliver [OF ne, of "info_of ch" WalkFiles fs log "()"] by simp
    then show ?thesis using ls j ch File Cons.IH [OF rest] by (simp add: files_child2_def)
  next
    case (Dir m1 es1)
    have rd: "readDirNames (pth p [name]) fs = (dir_names es1, None)"
      using readDirNames_dir [OF nm'] lk Dir ac accessible_Dir by simp
    have sk: "Walk_fn p WalkFiles (logged accept) (pth p [name]) (Some (info_of ch)) None (fs, (log, ()))
        = (None, (fs, (log, ())))"
      using Walk_fn_skip_dir [OF ne, of "info_of ch"] Dir Dirname_pth1 [OF p vn] cl by simp
    have "walk_names (Suc (Suc k)) (pth p [name]) (dir_names es1) (Walk_fn p WalkFiles (logged accept)) (fs, (log, ()))
        = Some (None, (fs, (log @ concat (map (file_child p [name] es1) (dir_names es1)), ())))"
      by (rule walk_names_files2 [OF p vn nm']) (use lk Dir ac in auto)
    then have "walk (Suc (Suc k)) (pth p [name]) (info_of ch) (Walk_fn p WalkFiles (logged accept)) (fs, (log, ()))
        = Some (None, (fs, (log @ concat (map (file_child p [name] es1) (dir_names es1)), ())))"
      using Dir rd sk by simp
    then show ?thesis using ls j ch Dir Cons.IH [OF rest] by (simp add: files_child2_def)
  qed
qed

lemma Walk_files_clean:
  assumes cl: "Clean p = p" and nm: "namei fs p = Inr loc0"
    and lk: "lookup (fs_root fs) loc0 = Some (Dir m es)"
    and acc: "accessible (Dir m es)" and fuel: "3 \<le> fuel"
  shows "Walk fuel p WalkFiles (logged accept) (fs, ([], ()))
           = Some (None, (fs, (concat (map (files_child2 p es) (dir_names es)), ())))"
proof -
  from nm have p: "p \<noteq> []" by (auto simp: namei_def)
  obtain k where k: "fuel = Suc (Suc (Suc k))"
    using fuel by (metis Suc_le_D numeral_3_eq_3 Suc_le_mono)
  have de: "DirExists p fs" using nm lk by (simp add: DirExists_def Info_def os_Stat_def)
  have ls: "os_Lstat p fs = Inr (info_of (Dir m es))"
    using nm lk by (simp add: os_Lstat_def os_Stat_def)
  have rd: "readDirNames p fs = (dir_names es, None)"
    using readDirNames_dir [OF nm lk] accessible_Dir [OF acc] by simp
  have "walk_names (Suc (Suc (Suc k))) p (dir_names es) (Walk_fn p WalkFiles (logged accept)) (fs, ([], ()))
        = Some (None, (fs, ([] @ concat (map (files_child2 p es) (dir_names es)), ())))"
    by (rule walk_names_files1 [OF p cl nm lk acc]) simp
  then have "walk fuel p (info_of (Dir m es)) (Walk_fn p WalkFiles (logged accept)) (fs, ([], ()))
        = Some (None, (fs, (concat (map (files_child2 p es) (dir_names es)), ())))"
    using rd k by simp
  then show ?thesis using de ls by (simp add: Walk_def filepath_Walk_def)
qed

text \<open>The entries below a node.\<close>

lemma entries_below_Dir_mem:
  "(x # ms', d) \<in> set (entries_below (Dir m es)) \<longleftrightarrow>
     x \<in> set (dir_names es)
     \<and> (\<exists>ch. map_of es x = Some ch
            \<and> ((ms' = [] \<and> d = is_Dir ch) \<or> (ms', d) \<in> set (entries_below ch)))"
proof
  assume "(x # ms', d) \<in> set (entries_below (Dir m es))"
  then show "x \<in> set (dir_names es)
     \<and> (\<exists>ch. map_of es x = Some ch
            \<and> ((ms' = [] \<and> d = is_Dir ch) \<or> (ms', d) \<in> set (entries_below ch)))"
  proof -
    assume "(x # ms', d) \<in> set (entries_below (Dir m es))"
    then have "\<exists>y\<in>set (dir_names es). (x # ms', d) \<in> set (case map_of es y of None \<Rightarrow> []
          | Some ch \<Rightarrow> ([y], is_Dir ch) # map (\<lambda>(ms, d). (y # ms, d)) (entries_below ch))"
      unfolding entries_below.simps(2) set_concat set_map by blast
    then obtain y where y: "y \<in> set (dir_names es)"
      and m: "(x # ms', d) \<in> set (case map_of es y of None \<Rightarrow> []
          | Some ch \<Rightarrow> ([y], is_Dir ch) # map (\<lambda>(ms, d). (y # ms, d)) (entries_below ch))"
      by blast
    then obtain ch where ch: "map_of es y = Some ch" by (cases "map_of es y") auto
    with m have "y = x" and "(ms' = [] \<and> d = is_Dir ch) \<or> (ms', d) \<in> set (entries_below ch)"
      by auto
    with y ch show ?thesis by blast
  qed
next
  assume a: "x \<in> set (dir_names es)
     \<and> (\<exists>ch. map_of es x = Some ch
            \<and> ((ms' = [] \<and> d = is_Dir ch) \<or> (ms', d) \<in> set (entries_below ch)))"
  then obtain ch where ch: "map_of es x = Some ch"
    and c: "(ms' = [] \<and> d = is_Dir ch) \<or> (ms', d) \<in> set (entries_below ch)" by blast
  have "(x # ms', d) \<in> set (([x], is_Dir ch) # map (\<lambda>(ms, d). (x # ms, d)) (entries_below ch))"
    using c by force
  then show "(x # ms', d) \<in> set (entries_below (Dir m es))"
    using a ch by (auto simp: entries_below.simps(2) intro!: bexI [of _ x])
qed

lemma entries_below_nonempty: "([], d) \<notin> set (entries_below nd)"
  by (cases nd) (auto simp: entries_below.simps(2) split: option.splits)

lemma entries_below_mem:
  "(ms, d) \<in> set (entries_below nd) \<longleftrightarrow>
     ms \<noteq> [] \<and> (\<forall>n\<in>set ms. valid_name n) \<and> (\<exists>ch. lookup nd ms = Some ch \<and> d = is_Dir ch)"
proof (induction nd arbitrary: ms rule: entries_below.induct)
  case (1 m dt)
  show ?case by (cases ms) auto
next
  case (2 m es)
  show ?case
  proof (cases ms)
    case Nil
    then show ?thesis using entries_below_nonempty by simp
  next
    case (Cons x ms')
    show ?thesis
    proof (cases "x \<in> set (dir_names es)")
      case False
      then have "valid_name x \<longrightarrow> map_of es x = None" by (simp add: dir_names_iff)
      with False Cons show ?thesis
        by (auto simp: entries_below_Dir_mem)
    next
      case True
      then obtain ch where ch: "map_of es x = Some ch" and vx: "valid_name x"
        by (auto simp: dir_names_iff)
      have "(ms, d) \<in> set (entries_below (Dir m es)) \<longleftrightarrow>
              (ms' = [] \<and> d = is_Dir ch) \<or> (ms', d) \<in> set (entries_below ch)"
        using Cons True ch by (simp add: entries_below_Dir_mem)
      also have "\<dots> \<longleftrightarrow> (ms' = [] \<and> d = is_Dir ch)
          \<or> (ms' \<noteq> [] \<and> (\<forall>n\<in>set ms'. valid_name n) \<and> (\<exists>c. lookup ch ms' = Some c \<and> d = is_Dir c))"
        using "2.IH" [OF True ch] by simp
      also have "\<dots> \<longleftrightarrow> (\<forall>n\<in>set ms'. valid_name n) \<and> (\<exists>c. lookup ch ms' = Some c \<and> d = is_Dir c)"
        by (cases ms') auto
      finally show ?thesis using Cons ch vx by simp
    qed
  qed
qed

lemma distinct_concat_heads:
  assumes "distinct names"
    and "\<And>x ms. x \<in> set names \<Longrightarrow> ms \<in> set (g x) \<Longrightarrow> ms \<noteq> [] \<and> hd ms = x"
    and "\<And>x. x \<in> set names \<Longrightarrow> distinct (g x)"
  shows "distinct (concat (map g names))"
  using assms
proof (induction names)
  case Nil
  then show ?case by simp
next
  case (Cons a names)
  have ih: "distinct (concat (map g names))"
    by (rule Cons.IH) (use Cons.prems in auto)
  have "set (g a) \<inter> set (concat (map g names)) = {}"
  proof (rule ccontr)
    assume "set (g a) \<inter> set (concat (map g names)) \<noteq> {}"
    then obtain ms y where "ms \<in> set (g a)" "y \<in> set names" "ms \<in> set (g y)" by auto
    with Cons.prems(2) [of a ms] Cons.prems(2) [of y ms] have "a = y" by auto
    with \<open>y \<in> set names\<close> Cons.prems(1) show False by simp
  qed
  then show ?case using ih Cons.prems(3) [of a] by simp
qed

lemma distinct_map_Cons: "distinct xs \<Longrightarrow> distinct (map ((#) x) xs)"
  by (simp add: distinct_map inj_on_def)

lemma entries_below_distinct: "distinct (map fst (entries_below nd))"
proof (induction nd rule: entries_below.induct)
  case (1 m d)
  show ?case by simp
next
  case (2 m es)
  let ?g = "\<lambda>n. map fst (case map_of es n of None \<Rightarrow> []
      | Some ch \<Rightarrow> ([n], is_Dir ch) # map (\<lambda>(ms, d). (n # ms, d)) (entries_below ch))"
  have "distinct (concat (map ?g (dir_names es)))"
  proof (rule distinct_concat_heads [OF dir_names_distinct])
    fix x ms assume "x \<in> set (dir_names es)" "ms \<in> set (?g x)"
    then show "ms \<noteq> [] \<and> hd ms = x" by (auto split: option.splits)
  next
    fix x assume x: "x \<in> set (dir_names es)"
    then obtain ch where ch: "map_of es x = Some ch" using dir_names_child by blast
    let ?t = "map ((#) x) (map fst (entries_below ch))"
    have g: "?g x = [x] # ?t" using ch by (simp add: comp_def split_def)
    have "distinct ?t" using "2.IH" [OF x ch] by (rule distinct_map_Cons)
    moreover have "[x] \<notin> set ?t" using entries_below_nonempty [of _ ch] by auto
    ultimately have "distinct ([x] # ?t)" by (simp only: distinct.simps) blast
    then show "distinct (?g x)" unfolding g .
  qed
  then show ?case by (simp add: entries_below.simps(2) map_concat comp_def)
qed

lemma pth_inject:
  assumes "p \<noteq> []" and "\<forall>n\<in>set ms. valid_name n" and "\<forall>n\<in>set ms'. valid_name n"
    and "pth p ms = pth p ms'"
  shows "ms = ms'"
proof (cases "ms = [] \<or> ms' = []")
  case True
  have "ms = []"
  proof (rule ccontr)
    assume a: "ms \<noteq> []"
    with True have "ms' = []" by simp
    with assms(4) pth_ne [OF assms(1,2) a] show False by simp
  qed
  moreover have "ms' = []"
  proof (rule ccontr)
    assume a: "ms' \<noteq> []"
    with True have "ms = []" by simp
    with assms(4) pth_ne [OF assms(1,3) a] show False by simp
  qed
  ultimately show ?thesis by simp
next
  case False
  let ?r = "hd p = CHR ''/''"
  let ?out = "foldl (clean_step ?r) [] (split_slash p)"
  have "render ?r (?out @ ms) = render ?r (?out @ ms')"
    using pth_render [OF assms(1,2)] pth_render [OF assms(1,3)] False assms(4) by simp
  from render_inject [OF pth_canon [OF assms(1,2)] pth_canon [OF assms(1,3)] this]
  show ?thesis by simp
qed

lemma entries_paths_distinct:
  assumes "p \<noteq> []"
  shows "distinct (map fst (map (\<lambda>(ms, d). (pth p ms, d)) (filter P (entries_below nd))))"
proof -
  have eq: "map fst (map (\<lambda>(ms, d). (pth p ms, d)) (filter P (entries_below nd)))
      = map (pth p) (map fst (filter P (entries_below nd)))"
    by (simp add: comp_def split_def)
  have d: "distinct (map fst (filter P (entries_below nd)))"
    using entries_below_distinct [of nd] by (rule distinct_map_filter)
  have i: "inj_on (pth p) (set (map fst (filter P (entries_below nd))))"
  proof (rule inj_onI)
    fix a b
    assume a: "a \<in> set (map fst (filter P (entries_below nd)))"
      and b: "b \<in> set (map fst (filter P (entries_below nd)))" and e: "pth p a = pth p b"
    from a obtain da where "(a, da) \<in> set (entries_below nd)" by auto
    then have va: "\<forall>n\<in>set a. valid_name n" by (simp add: entries_below_mem)
    from b obtain db where "(b, db) \<in> set (entries_below nd)" by auto
    then have vb: "\<forall>n\<in>set b. valid_name n" by (simp add: entries_below_mem)
    show "a = b" using pth_inject [OF assms va vb e] .
  qed
  have "distinct (map (pth p) (map fst (filter P (entries_below nd))))"
    using distinct_map [of "pth p" "map fst (filter P (entries_below nd))"] d i by blast
  then show ?thesis unfolding eq .
qed

lemma filter_cons_map:
  "filter (\<lambda>(ms, d). \<not> d \<and> length ms \<le> Suc k) (map (\<lambda>(ms, d). (x # ms, d)) xs)
     = map (\<lambda>(ms, d). (x # ms, d)) (filter (\<lambda>(ms, d). \<not> d \<and> length ms \<le> k) xs)"
  by (induction xs) auto

lemma filter_depth0 [simp]: "filter (\<lambda>(ms, d). \<not> d \<and> ms = []) (entries_below nd) = []"
  using entries_below_nonempty [of _ nd] by (auto simp: filter_empty_conv)

lemma files_depth1:
  "map (\<lambda>(ms, d). (pth p (pre @ ms), d))
       (filter (\<lambda>(ms, d). \<not> d \<and> length ms \<le> Suc 0) (entries_below (Dir m1 es1)))
     = concat (map (file_child p pre es1) (dir_names es1))"
proof -
  have "map (\<lambda>(ms, d). (pth p (pre @ ms), d))
          (filter (\<lambda>(ms, d). \<not> d \<and> length ms \<le> Suc 0)
             (case map_of es1 y of
                None \<Rightarrow> []
              | Some ch \<Rightarrow> ([y], is_Dir ch) # map (\<lambda>(ms, d). (y # ms, d)) (entries_below ch)))
        = file_child p pre es1 y" for y
  proof (cases "map_of es1 y")
    case None
    then show ?thesis by (simp add: file_child_def)
  next
    case (Some ch)
    then show ?thesis
      by (cases ch) (simp_all add: file_child_def filter_cons_map)
  qed
  then show ?thesis
    by (simp add: entries_below.simps(2) filter_concat map_concat comp_def)
qed

lemma files_depth2:
  "map (\<lambda>(ms, d). (pth p ms, d))
       (filter (\<lambda>(ms, d). \<not> d \<and> length ms \<le> 2) (entries_below (Dir m es)))
     = concat (map (files_child2 p es) (dir_names es))"
proof -
  have two: "(2::nat) = Suc (Suc 0)" by simp
  have "map (\<lambda>(ms, d). (pth p ms, d))
          (filter (\<lambda>(ms, d). \<not> d \<and> length ms \<le> Suc (Suc 0))
             (case map_of es x of
                None \<Rightarrow> []
              | Some ch \<Rightarrow> ([x], is_Dir ch) # map (\<lambda>(ms, d). (x # ms, d)) (entries_below ch)))
        = files_child2 p es x" for x
  proof (cases "map_of es x")
    case None
    then show ?thesis by (simp add: files_child2_def)
  next
    case (Some ch)
    show ?thesis
    proof (cases ch)
      case (File fm fd)
      with Some show ?thesis by (simp add: files_child2_def)
    next
      case (Dir m1 es1)
      have a: "map ((\<lambda>(ms, d). (pth p ms, d)) \<circ> (\<lambda>(ms, d). (x # ms, d))) xs
            = map (\<lambda>(ms, d). (pth p (x # ms), d)) xs" for xs :: "(string list \<times> bool) list"
        by (simp add: comp_def split_def)
      have b: "map (\<lambda>(ms, d). (pth p (x # ms), d))
                (filter (\<lambda>(ms, d). \<not> d \<and> length ms \<le> Suc 0) (entries_below (Dir m1 es1)))
            = concat (map (file_child p [x] es1) (dir_names es1))"
        using files_depth1 [of p "[x]" m1 es1] by simp
      from Some Dir show ?thesis
        by (simp add: files_child2_def filter_cons_map a b)
    qed
  qed
  then show ?thesis
    unfolding two
    by (simp add: entries_below.simps(2) filter_concat map_concat comp_def)
qed

text \<open>With enough fuel, a walk whose callback leaves the file system alone returns.\<close>

lemma walk_defined:
  fixes f :: "'s WalkFunc"
  assumes k: "\<And>path info err st. fst (snd (f path info err st)) = fst st"
  shows "\<forall>path loc nd b. namei fs path = Inr loc \<longrightarrow> lookup (fs_root fs) loc = Some nd
            \<longrightarrow> height nd < n
            \<longrightarrow> (\<exists>e b'. walk n path (info_of nd) f (fs, b) = Some (e, (fs, b')))"
proof (induction n)
  case 0
  show ?case by simp
next
  case (Suc n)
  have call: "\<exists>e b'. f path info err (fs, b) = (e, (fs, b'))" for path info err b
    using k [of path info err "(fs, b)"] by (metis fst_conv prod.collapse)
  show ?case
  proof (intro allI impI)
    fix path loc nd b
    assume nm: "namei fs path = Inr loc" and lk: "lookup (fs_root fs) loc = Some nd"
      and h: "height nd < Suc n"
    show "\<exists>e b'. walk (Suc n) path (info_of nd) f (fs, b) = Some (e, (fs, b'))"
    proof (cases nd)
      case (File m d)
      then show ?thesis using call [of path "Some (info_of nd)" None b] by simp
    next
      case (Dir m es)
      have d: "lookup (fs_root fs) loc = Some (Dir m es)" using lk Dir by simp
      have names: "\<exists>e b'. walk_names (Suc n) path names f (fs, b) = Some (e, (fs, b'))"
        if "set names \<subseteq> set (dir_names es)" for names b
        using that
      proof (induction names arbitrary: b)
        case Nil
        then show ?case by simp
      next
        case (Cons name names)
        then have mem: "name \<in> set (dir_names es)" and rest: "set names \<subseteq> set (dir_names es)"
          by auto
        from mem have vn: "valid_name name" by (rule dir_names_valid)
        from mem obtain ch where ch: "map_of es name = Some ch" using dir_names_child by blast
        show ?case
        proof (cases "owner_x m")
          case False
          define e0 where "e0 = refusal (Join path name) EACCES"
          from False have ls: "os_Lstat (Join path name) fs = Inl e0"
            using Lstat_Join [OF nm d vn] by (simp add: e0_def)
          from call obtain e b1 where c: "f (Join path name) None (Some e0) (fs, b) = (e, (fs, b1))"
            by blast
          from Cons.IH [OF rest] obtain e' b' where
            "walk_names (Suc n) path names f (fs, b1) = Some (e', (fs, b'))" by blast
          then show ?thesis using ls c
            by (cases "e \<noteq> None \<and> e \<noteq> Some SkipDir") simp_all
        next
          case True
          then have ls: "os_Lstat (Join path name) fs = Inr (info_of ch)"
            using Lstat_Join [OF nm d vn] ch by simp
          have nm': "namei fs (Join path name) = Inr (loc @ [name])"
            using namei_Join [OF nm vn] step_child [OF d vn] True ch by simp
          have lk': "lookup (fs_root fs) (loc @ [name]) = Some ch"
            using lookup_snoc_child [OF d, of name] ch by simp
          have hc: "height ch < n" using height_child [OF ch vn, of m] h Dir by simp
          from Suc nm' lk' hc
          obtain e b1 where w: "walk n (Join path name) (info_of ch) f (fs, b) = Some (e, (fs, b1))"
            by blast
          from Cons.IH [OF rest] obtain e' b' where
            "walk_names (Suc n) path names f (fs, b1) = Some (e', (fs, b'))" by blast
          then show ?thesis using ls w
            by (cases "e \<noteq> None \<and> (\<not> IsDir (info_of ch) \<or> e \<noteq> Some SkipDir)") simp_all
        qed
      qed
      obtain nms err where rd: "readDirNames path fs = (nms, err)" by (metis surj_pair)
      have sub: "set nms \<subseteq> set (dir_names es)"
        using rd readDirNames_dir [OF nm d] by (auto split: if_splits)
      from call obtain e1 b1 where c: "f path (Some (info_of nd)) err (fs, b) = (e1, (fs, b1))"
        by blast
      from names [OF sub] obtain e' b' where
        "walk_names (Suc n) path nms f (fs, b1) = Some (e', (fs, b'))" by blast
      then show ?thesis using Dir rd c
        by (cases "err \<noteq> None \<or> e1 \<noteq> None") simp_all
    qed
  qed
qed

lemma Walk_defined:
  fixes w :: "Path \<Rightarrow> bool \<Rightarrow> fsys \<times> 's \<Rightarrow> error option \<times> (fsys \<times> 's)"
  assumes k: "\<And>path d st. fst (snd (w path d st)) = fst st"
  shows "\<exists>n. \<forall>fuel\<ge>n. \<exists>r. Walk fuel p wt w (fs, s) = Some r"
proof (cases "DirExists p fs")
  case False
  then show ?thesis by (simp add: Walk_def)
next
  case True
  then obtain loc m es where nm: "namei fs p = Inr loc"
    and lk: "lookup (fs_root fs) loc = Some (Dir m es)"
    using DirExists_namei by blast
  have ls: "os_Lstat p fs = Inr (info_of (Dir m es))"
    using nm lk by (simp add: os_Lstat_def os_Stat_def)
  have kf: "fst (snd (Walk_fn p wt w path info err st)) = fst st" for path info err st
    using k by (auto simp: Walk_fn_def Let_def split: option.splits)
  show ?thesis
  proof (rule exI [of _ "Suc (height (Dir m es))"], intro allI impI)
    fix fuel assume "Suc (height (Dir m es)) \<le> fuel"
    then have "height (Dir m es) < fuel" by simp
    with walk_defined [of "Walk_fn p wt w" fs fuel, OF kf] nm lk
    obtain e b' where "walk fuel p (info_of (Dir m es)) (Walk_fn p wt w) (fs, s) = Some (e, (fs, b'))"
      by blast
    then show "\<exists>r. Walk fuel p wt w (fs, s) = Some r"
      using True ls by (simp add: Walk_def filepath_Walk_def)
  qed
qed

lemma Count_defined: "\<exists>n. \<forall>fuel\<ge>n. \<exists>c. Count fuel p wt fs = Some c"
proof -
  have "\<exists>n. \<forall>fuel\<ge>n. \<exists>r. Walk fuel p wt Count_fn (fs, 0) = Some r"
    by (rule Walk_defined) (simp add: Count_fn_def)
  then obtain n where "\<forall>fuel\<ge>n. \<exists>r. Walk fuel p wt Count_fn (fs, 0) = Some r" by blast
  then have "\<forall>fuel\<ge>n. \<exists>c. Count fuel p wt fs = Some c"
    by (auto simp: Count_def split: option.splits prod.splits)
  then show ?thesis ..
qed

lemma entries_set_both:
  "set (map (\<lambda>(ms, d). (pth p ms, d)) (entries_below nd))
     = {(pth p ms, is_Dir ch) | ms ch.
          ms \<noteq> [] \<and> (\<forall>n\<in>set ms. valid_name n) \<and> lookup nd ms = Some ch}"
proof -
  have "set (entries_below nd)
      = {(ms, is_Dir ch) | ms ch. ms \<noteq> [] \<and> (\<forall>n\<in>set ms. valid_name n) \<and> lookup nd ms = Some ch}"
    (is "_ = ?S")
  proof (rule set_eqI)
    fix e :: "string list \<times> bool"
    obtain ms d where e: "e = (ms, d)" by (cases e)
    show "e \<in> set (entries_below nd) \<longleftrightarrow> e \<in> ?S"
      unfolding e entries_below_mem by blast
  qed
  then have "set (map (\<lambda>(ms, d). (pth p ms, d)) (entries_below nd))
      = (\<lambda>(ms, d). (pth p ms, d)) ` ?S" by simp
  also have "\<dots> = {(pth p ms, is_Dir ch) | ms ch.
          ms \<noteq> [] \<and> (\<forall>n\<in>set ms. valid_name n) \<and> lookup nd ms = Some ch}"
    by (rule set_eqI) (fastforce simp: image_iff)
  finally show ?thesis .
qed

lemma entries_set_files:
  "set (map (\<lambda>(ms, d). (pth p ms, d)) (filter (\<lambda>(ms, d). \<not> d \<and> length ms \<le> 2) (entries_below nd)))
     = {(pth p ms, False) | ms fm fd.
          (length ms = 1 \<or> length ms = 2) \<and> (\<forall>n\<in>set ms. valid_name n)
          \<and> lookup nd ms = Some (File fm fd)}"
proof -
  have "(ms, d) \<in> set (filter (\<lambda>(ms, d). \<not> d \<and> length ms \<le> 2) (entries_below nd))
      \<longleftrightarrow> \<not> d \<and> (length ms = 1 \<or> length ms = 2) \<and> (\<forall>n\<in>set ms. valid_name n)
          \<and> (\<exists>fm fd. lookup nd ms = Some (File fm fd))" for ms d
  proof -
    have "(\<exists>ch. lookup nd ms = Some ch \<and> \<not> is_Dir ch) \<longleftrightarrow> (\<exists>fm fd. lookup nd ms = Some (File fm fd))"
      by (metis is_Dir.elims(3) is_Dir.simps(2))
    moreover have "ms \<noteq> [] \<and> length ms \<le> 2 \<longleftrightarrow> length ms = 1 \<or> length ms = 2"
      by (cases ms) (auto simp: le_Suc_eq)
    ultimately show ?thesis using entries_below_mem [of ms d nd] by auto
  qed
  then have "set (filter (\<lambda>(ms, d). \<not> d \<and> length ms \<le> 2) (entries_below nd))
      = {(ms, False) | ms fm fd. (length ms = 1 \<or> length ms = 2) \<and> (\<forall>n\<in>set ms. valid_name n)
          \<and> lookup nd ms = Some (File fm fd)}" (is "?L = ?S")
  proof -
    assume a: "\<And>ms d. (ms, d) \<in> ?L \<longleftrightarrow> \<not> d \<and> (length ms = 1 \<or> length ms = 2)
        \<and> (\<forall>n\<in>set ms. valid_name n) \<and> (\<exists>fm fd. lookup nd ms = Some (File fm fd))"
    show ?thesis
    proof (rule set_eqI)
      fix e :: "string list \<times> bool"
      obtain ms d where e: "e = (ms, d)" by (cases e)
      show "e \<in> ?L \<longleftrightarrow> e \<in> ?S" unfolding e a by blast
    qed
  qed
  then have "set (map (\<lambda>(ms, d). (pth p ms, d))
        (filter (\<lambda>(ms, d). \<not> d \<and> length ms \<le> 2) (entries_below nd)))
      = (\<lambda>(ms, d). (pth p ms, d)) ` {(ms, False) | ms fm fd.
          (length ms = 1 \<or> length ms = 2) \<and> (\<forall>n\<in>set ms. valid_name n)
          \<and> lookup nd ms = Some (File fm fd)}" by simp
  also have "\<dots> = {(pth p ms, False) | ms fm fd.
          (length ms = 1 \<or> length ms = 2) \<and> (\<forall>n\<in>set ms. valid_name n)
          \<and> lookup nd ms = Some (File fm fd)}"
    by (rule set_eqI) (fastforce simp: image_iff)
  finally show ?thesis .
qed

section \<open>What a walk delivers\<close>

text \<open>
  C1 as stated fails: walking \<open>r\<close> for files only delivers \<open>r/a/b\<close> and returns without an
  error, and the regular file \<open>r/a/c/d\<close> below the root is never delivered, because the
  directory \<open>r/a/c\<close> is not a top-level entry and is skipped with all below it.
\<close>

theorem Walk_filter_counterexample:
  "DirExists ''r'' walk_fs \<and> FileExists ''r/a/c/d'' walk_fs
   \<and> Walk 5 ''r'' WalkFiles (logged accept) (walk_fs, ([], ()))
       = Some (None, (walk_fs, ([(''r/a/b'', False)], ())))"
  by code_simp

text \<open>
  C1, amended. With the visitor that accepts every entry, for every root, file system and
  fuel: a walk for files only delivers regular files only, and a walk for directories only
  delivers directories only. When the root is a directory in which every directory can be
  listed and searched and the fuel exceeds the depth of the tree, the walk of both kinds
  returns without an error, leaves the file system as it was, and has delivered exactly the
  entries below the root, each with its kind and no path twice. When moreover the root is
  written in cleaned form, the walk for files only (three units of fuel are enough)
  returns without an error and has delivered exactly the regular files that lie directly
  in the root or directly in a directory of the root, no path twice. Which directories a
  walk for directories only delivers is not said here.
\<close>

theorem Walk_delivers:
  "(\<forall>err fs' log u.
      Walk fuel p WalkFiles (logged accept) (fs, ([], ())) = Some (err, (fs', (log, u))) \<longrightarrow>
      (\<forall>(path, isDirectory)\<in>set log. \<not> isDirectory \<and> FileExists path fs))
   \<and> (\<forall>err fs' log u.
      Walk fuel p WalkDirs (logged accept) (fs, ([], ())) = Some (err, (fs', (log, u))) \<longrightarrow>
      (\<forall>(path, isDirectory)\<in>set log. isDirectory \<and> DirExists path fs))
   \<and> (namei fs p = Inr loc \<and> lookup (fs_root fs) loc = Some (Dir m es)
       \<and> accessible (Dir m es) \<and> height (Dir m es) < fuel \<longrightarrow>
      (\<exists>log. Walk fuel p WalkBoth (logged accept) (fs, ([], ())) = Some (None, (fs, (log, ())))
         \<and> distinct (map fst log)
         \<and> set log = {(pth p ms, is_Dir ch) | ms ch.
              ms \<noteq> [] \<and> (\<forall>n\<in>set ms. valid_name n) \<and> lookup (Dir m es) ms = Some ch}))
   \<and> (Clean p = p \<and> namei fs p = Inr loc \<and> lookup (fs_root fs) loc = Some (Dir m es)
       \<and> accessible (Dir m es) \<and> 3 \<le> fuel \<longrightarrow>
      (\<exists>log. Walk fuel p WalkFiles (logged accept) (fs, ([], ())) = Some (None, (fs, (log, ())))
         \<and> distinct (map fst log)
         \<and> set log = {(pth p ms, False) | ms fm fd.
              (length ms = 1 \<or> length ms = 2) \<and> (\<forall>n\<in>set ms. valid_name n)
              \<and> lookup (Dir m es) ms = Some (File fm fd)}))"
proof (intro conjI allI impI)
  fix err fs' log u
  assume "Walk fuel p WalkFiles (logged accept) (fs, ([], ())) = Some (err, (fs', (log, u)))"
  then show "\<forall>(path, isDirectory)\<in>set log. \<not> isDirectory \<and> FileExists path fs"
    by (rule Walk_files_only)
next
  fix err fs' log u
  assume "Walk fuel p WalkDirs (logged accept) (fs, ([], ())) = Some (err, (fs', (log, u)))"
  then show "\<forall>(path, isDirectory)\<in>set log. isDirectory \<and> DirExists path fs"
    by (rule Walk_dirs_only)
next
  assume a: "namei fs p = Inr loc \<and> lookup (fs_root fs) loc = Some (Dir m es)
       \<and> accessible (Dir m es) \<and> height (Dir m es) < fuel"
  then have p: "p \<noteq> []" by (auto simp: namei_def)
  let ?log = "map (\<lambda>(ms, d). (pth p ms, d)) (entries_below (Dir m es))"
  have "Walk fuel p WalkBoth (logged accept) (fs, ([], ())) = Some (None, (fs, (?log, ())))"
    using a by (intro Walk_both_all) auto
  moreover have "distinct (map fst ?log)"
    using entries_paths_distinct [OF p, of "\<lambda>e. True" "Dir m es"] by simp
  moreover note entries_set_both [of p "Dir m es"]
  ultimately show "\<exists>log. Walk fuel p WalkBoth (logged accept) (fs, ([], ())) = Some (None, (fs, (log, ())))
         \<and> distinct (map fst log)
         \<and> set log = {(pth p ms, is_Dir ch) | ms ch.
              ms \<noteq> [] \<and> (\<forall>n\<in>set ms. valid_name n) \<and> lookup (Dir m es) ms = Some ch}"
    by blast
next
  assume a: "Clean p = p \<and> namei fs p = Inr loc \<and> lookup (fs_root fs) loc = Some (Dir m es)
       \<and> accessible (Dir m es) \<and> 3 \<le> fuel"
  then have p: "p \<noteq> []" by (auto simp: namei_def)
  let ?log = "map (\<lambda>(ms, d). (pth p ms, d))
      (filter (\<lambda>(ms, d). \<not> d \<and> length ms \<le> 2) (entries_below (Dir m es)))"
  have "Walk fuel p WalkFiles (logged accept) (fs, ([], ())) = Some (None, (fs, (?log, ())))"
    using a Walk_files_clean [of p fs loc m es fuel] by (simp add: files_depth2)
  moreover have "distinct (map fst ?log)"
    using entries_paths_distinct [OF p] .
  moreover note entries_set_files [of p "Dir m es"]
  ultimately show "\<exists>log. Walk fuel p WalkFiles (logged accept) (fs, ([], ())) = Some (None, (fs, (log, ())))
         \<and> distinct (map fst log)
         \<and> set log = {(pth p ms, False) | ms fm fd.
              (length ms = 1 \<or> length ms = 2) \<and> (\<forall>n\<in>set ms. valid_name n)
              \<and> lookup (Dir m es) ms = Some (File fm fd)}"
    by blast
qed

text \<open>
  The witness: the tree \<open>r\<close> of \<open>walk_fs\<close>, walked with five units of fuel.
\<close>

theorem Walk_delivers_witness:
  "Clean ''r'' = ''r'' \<and> namei walk_fs ''r'' = Inr [''r'']
   \<and> lookup (fs_root walk_fs) [''r''] = Some (Dir 493 walk_entries)
   \<and> accessible (Dir 493 walk_entries) \<and> height (Dir 493 walk_entries) < 5
   \<and> (\<exists>log. Walk 5 ''r'' WalkBoth (logged accept) (walk_fs, ([], ())) = Some (None, (walk_fs, (log, ())))
         \<and> distinct (map fst log)
         \<and> set log = {(pth ''r'' ms, is_Dir ch) | ms ch.
              ms \<noteq> [] \<and> (\<forall>n\<in>set ms. valid_name n) \<and> lookup (Dir 493 walk_entries) ms = Some ch})
   \<and> (\<exists>log. Walk 5 ''r'' WalkFiles (logged accept) (walk_fs, ([], ())) = Some (None, (walk_fs, (log, ())))
         \<and> distinct (map fst log)
         \<and> set log = {(pth ''r'' ms, False) | ms fm fd.
              (length ms = 1 \<or> length ms = 2) \<and> (\<forall>n\<in>set ms. valid_name n)
              \<and> lookup (Dir 493 walk_entries) ms = Some (File fm fd)})
   \<and> Walk 5 ''r'' WalkFiles (logged accept) (walk_fs, ([], ()))
       = Some (None, (walk_fs, ([(''r/a/b'', False)], ())))
   \<and> FileExists ''r/a/b'' walk_fs
   \<and> Walk 5 ''r'' WalkDirs (logged accept) (walk_fs, ([], ()))
       = Some (None, (walk_fs, ([(''r/a'', True)], ())))
   \<and> DirExists ''r/a'' walk_fs"
proof -
  have a: "Clean ''r'' = ''r''" by code_simp
  have b: "namei walk_fs ''r'' = Inr [''r'']" by code_simp
  have c: "lookup (fs_root walk_fs) [''r''] = Some (Dir 493 walk_entries)" by code_simp
  have d: "accessible (Dir 493 walk_entries)" by code_simp
  have e: "height (Dir 493 walk_entries) < 5" by code_simp
  have f: "Walk 5 ''r'' WalkFiles (logged accept) (walk_fs, ([], ()))
       = Some (None, (walk_fs, ([(''r/a/b'', False)], ())))" by code_simp
  have g: "Walk 5 ''r'' WalkDirs (logged accept) (walk_fs, ([], ()))
       = Some (None, (walk_fs, ([(''r/a'', True)], ())))" by code_simp
  note t = Walk_delivers [of 5 "''r''" walk_fs "[''r'']" 493 walk_entries]
  from t f have "FileExists ''r/a/b'' walk_fs" by fastforce
  moreover from t g have "DirExists ''r/a'' walk_fs" by fastforce
  moreover from t a b c d e
  have "\<exists>log. Walk 5 ''r'' WalkBoth (logged accept) (walk_fs, ([], ())) = Some (None, (walk_fs, (log, ())))
         \<and> distinct (map fst log)
         \<and> set log = {(pth ''r'' ms, is_Dir ch) | ms ch.
              ms \<noteq> [] \<and> (\<forall>n\<in>set ms. valid_name n) \<and> lookup (Dir 493 walk_entries) ms = Some ch}"
    by blast
  moreover from t a b c d
  have "\<exists>log. Walk 5 ''r'' WalkFiles (logged accept) (walk_fs, ([], ())) = Some (None, (walk_fs, (log, ())))
         \<and> distinct (map fst log)
         \<and> set log = {(pth ''r'' ms, False) | ms fm fd.
              (length ms = 1 \<or> length ms = 2) \<and> (\<forall>n\<in>set ms. valid_name n)
              \<and> lookup (Dir 493 walk_entries) ms = Some (File fm fd)}"
    by simp
  ultimately show ?thesis using a b c d e f g by blast
qed

text \<open>
  C2 does not hold of the code. Walking \<open>r\<close> for directories only delivers \<open>r/a\<close> alone:
  in \<open>r/a\<close> the file \<open>b\<close> is not a top-level entry, so the callback answers \<open>SkipDir\<close> for
  it, and \<open>filepath.Walk\<close> then leaves out the rest of \<open>r/a\<close>, where the directory \<open>c\<close>
  comes after \<open>b\<close>. The directory \<open>r/a/c\<close> exists and is not delivered.
\<close>

theorem Walk_dirs_skips_siblings:
  "DirExists ''r'' walk_fs \<and> DirExists ''r/a/c'' walk_fs
   \<and> Walk 5 ''r'' WalkDirs (logged accept) (walk_fs, ([], ()))
       = Some (None, (walk_fs, ([(''r/a'', True)], ())))"
  by code_simp

text \<open>
  C3 as stated fails: in \<open>locked_fs\<close> the walk of \<open>r\<close> delivers the file \<open>a\<close> and then
  fails with \<open>EACCES\<close> on the directory \<open>b\<close>, which cannot be listed; \<open>Count\<close> returns the
  one entry counted so far, not zero.
\<close>

theorem Count_partial_counterexample:
  "DirExists ''r'' locked_fs
   \<and> Walk 4 ''r'' WalkBoth Count_fn (locked_fs, 0) = Some (Some EACCES, (locked_fs, 1))
   \<and> Count 4 ''r'' WalkBoth locked_fs = Some 1"
  by code_simp

text \<open>
  C3, amended. \<open>Count\<close> returns zero when the root is not a directory; with enough fuel it
  always returns a number (its result has no room for an error); and whenever the walk
  returns, with or without an error, \<open>Count\<close> is the number of entries the walk delivered
  up to there.
\<close>

theorem Count_best_effort:
  "(\<not> DirExists p fs \<longrightarrow> Count fuel p walkType fs = Some 0)
   \<and> (\<exists>n. \<forall>k\<ge>n. \<exists>c. Count k p walkType fs = Some c)
   \<and> (\<forall>err fs' log u.
        Walk fuel p walkType (logged accept) (fs, ([], ())) = Some (err, (fs', (log, u))) \<longrightarrow>
        Count fuel p walkType fs = Some (of_nat (length log)))"
  using Count_defined [of p walkType fs] Count_length [of fuel p walkType fs]
  by (auto simp: Count_def)

text \<open>
  The witness: \<open>r/a\<close> is a file, so its count is zero; the walk of \<open>r\<close> fails after one
  entry, and the count is one.
\<close>

theorem Count_best_effort_witness:
  "\<not> DirExists ''r/a'' locked_fs \<and> Count 4 ''r/a'' WalkBoth locked_fs = Some 0
   \<and> Walk 4 ''r'' WalkBoth (logged accept) (locked_fs, ([], ()))
       = Some (Some EACCES, (locked_fs, ([(''r/a'', False)], ())))
   \<and> Count 4 ''r'' WalkBoth locked_fs = Some 1"
proof -
  have a: "\<not> DirExists ''r/a'' locked_fs" by code_simp
  have b: "Walk 4 ''r'' WalkBoth (logged accept) (locked_fs, ([], ()))
       = Some (Some EACCES, (locked_fs, ([(''r/a'', False)], ())))" by code_simp
  show ?thesis
    using a b Count_best_effort [of "''r/a''" locked_fs 4 WalkBoth]
      Count_best_effort [of "''r''" locked_fs 4 WalkBoth]
    by simp
qed

text \<open>
  C4 does not hold of the code. With the source \<open>./r\<close>, which is not in cleaned form, the
  walk delivers the entry \<open>r/f\<close>; the source root is not a prefix of that path and does not
  occur in it, so the replacement leaves the path as it is, and the file is copied onto
  itself: it is emptied by the open for writing. \<open>CopyTo\<close> returns no error, the
  destination \<open>t\<close> stays empty, and the content of \<open>r/f\<close> is lost.
\<close>

theorem copyDirs_unclean_source:
  "DirExists ''./r'' copy_fs
   \<and> Walk 3 ''./r'' WalkBoth (logged (copyDirs_fn ''./r'' ''t'')) (copy_fs, ([], ()))
       = Some (None, (\<lparr>fs_root = Dir 493 [(''r'', Dir 493 [(''f'', File 420 [])])], fs_cwd = []\<rparr>,
                      ([(''r/f'', False)], ())))
   \<and> \<not> prefix ''./r'' ''r/f''
   \<and> Replace1 ''r/f'' ''./r'' ''t'' = ''r/f''
   \<and> CopyTo 3 ''./r'' ''t'' copy_fs
       = Some (None, \<lparr>fs_root = Dir 493 [(''r'', Dir 493 [(''f'', File 420 [])]), (''t'', Dir 493 [])],
                       fs_cwd = []\<rparr>)"
  by code_simp

section \<open>What a file copy leaves behind\<close>

text \<open>Writing a node where a regular file is, or under a new name in a directory, leaves
  every other node in its place, with its kind and its permission bits.\<close>

lemma lookup_File_Cons [simp]: "lookup (File m d) loc = Some k \<longleftrightarrow> loc = [] \<and> k = File m d"
  by (cases loc) auto

lemma store_file_same:
  "lookup n dl = Some (File m d) \<Longrightarrow> lookup (store n dl new) dl = Some new"
proof (induction n dl new rule: store.induct)
  case (3 m' es x xs new)
  then show ?case by (auto simp: update_conv' split: option.splits)
qed auto

lemma store_file_other:
  "lookup n dl = Some (File m d) \<Longrightarrow> lookup n loc = Some k \<Longrightarrow>
     \<exists>k'. lookup (store n dl (File m d')) loc = Some k' \<and> info_of k' = info_of k
          \<and> (loc \<noteq> dl \<longrightarrow> \<not> is_Dir k \<longrightarrow> k' = k)"
proof (induction n dl "File m d'" arbitrary: loc k rule: store.induct)
  case (1 n)
  then show ?case by auto
next
  case (2 m' d0 x xs)
  then show ?case by auto
next
  case (3 m' es x xs)
  note IH = 3(1) and k = 3(3)
  from 3(2) obtain ch where ch: "map_of es x = Some ch" and l: "lookup ch xs = Some (File m d)"
    by (auto split: option.splits)
  show ?case
  proof (cases loc)
    case Nil
    then show ?thesis using k ch by auto
  next
    case loc: (Cons y ys)
    show ?thesis
    proof (cases "y = x")
      case True
      then have "lookup ch ys = Some k" using k loc ch by simp
      from IH [OF ch l this] show ?thesis using loc True ch by (auto simp: update_conv')
    next
      case False
      then show ?thesis using k loc ch by (auto simp: update_conv' split: option.splits)
    qed
  qed
qed

lemma store_new_same:
  "lookup n pl = Some (Dir m es) \<Longrightarrow> map_of es x = None \<Longrightarrow>
     lookup (store n (pl @ [x]) new) (pl @ [x]) = Some new"
proof (induction pl arbitrary: n)
  case Nil
  then show ?case by (auto simp: map_add_def)
next
  case (Cons p ps)
  then obtain m0 es0 ch where n: "n = Dir m0 es0" and ch: "map_of es0 p = Some ch"
    and l: "lookup ch ps = Some (Dir m es)"
    by (cases n) (auto split: option.splits)
  from Cons.IH [OF l Cons.prems(2)] show ?case using n ch by (auto simp: update_conv')
qed

lemma store_new_other:
  "lookup n pl = Some (Dir m es) \<Longrightarrow> map_of es x = None \<Longrightarrow> lookup n loc = Some k \<Longrightarrow>
     \<exists>k'. lookup (store n (pl @ [x]) new) loc = Some k' \<and> info_of k' = info_of k
          \<and> (\<not> is_Dir k \<longrightarrow> k' = k)"
proof (induction pl arbitrary: n loc k)
  case Nil
  then show ?case by (cases loc) (auto simp: map_add_def split: option.splits)
next
  case (Cons p ps)
  note IH = Cons.IH and x = Cons.prems(2) and k = Cons.prems(3)
  from Cons.prems(1) obtain m0 es0 ch where n: "n = Dir m0 es0" and ch: "map_of es0 p = Some ch"
    and l: "lookup ch ps = Some (Dir m es)"
    by (cases n) (auto split: option.splits)
  show ?case
  proof (cases loc)
    case Nil
    then show ?thesis using k n ch by auto
  next
    case loc: (Cons y ys)
    show ?thesis
    proof (cases "y = p")
      case True
      then have "lookup ch ys = Some k" using k loc n ch by simp
      from IH [OF l x this] show ?thesis
        using loc True n ch by (auto simp: update_conv')
    next
      case False
      then show ?thesis using k loc n ch
        by (auto simp: update_conv' split: option.splits)
    qed
  qed
qed

text \<open>A path that names a node keeps naming it while the file system grows.\<close>

lemma is_Dir_info: "info_of a = info_of b \<Longrightarrow> is_Dir a = is_Dir b"
  by (cases a; cases b) auto

lemma info_of_Dir: "info_of k = info_of (Dir m es) \<Longrightarrow> \<exists>es'. k = Dir m es'"
  by (cases k) auto

lemma info_of_File: "info_of k = info_of (File m d) \<Longrightarrow> \<exists>d'. k = File m d'"
  by (cases k) auto

lemma grows_refl [simp]: "grows X fs fs"
  by (simp add: grows_def)

lemma grows_trans: "grows X fs fs1 \<Longrightarrow> grows Y fs1 fs2 \<Longrightarrow> grows (X \<union> Y) fs fs2"
  unfolding grows_def
proof (intro conjI allI impI)
  assume a: "fs_cwd fs1 = fs_cwd fs \<and>
     (\<forall>loc n. lookup (fs_root fs) loc = Some n \<longrightarrow>
        (\<exists>n'. lookup (fs_root fs1) loc = Some n' \<and> info_of n' = info_of n \<and>
              (loc \<notin> X \<longrightarrow> \<not> is_Dir n \<longrightarrow> n' = n)))"
    and b: "fs_cwd fs2 = fs_cwd fs1 \<and>
     (\<forall>loc n. lookup (fs_root fs1) loc = Some n \<longrightarrow>
        (\<exists>n'. lookup (fs_root fs2) loc = Some n' \<and> info_of n' = info_of n \<and>
              (loc \<notin> Y \<longrightarrow> \<not> is_Dir n \<longrightarrow> n' = n)))"
  show "fs_cwd fs2 = fs_cwd fs" using a b by simp
  fix loc n assume n: "lookup (fs_root fs) loc = Some n"
  from a n obtain n1 where n1: "lookup (fs_root fs1) loc = Some n1" "info_of n1 = info_of n"
    "loc \<notin> X \<longrightarrow> \<not> is_Dir n \<longrightarrow> n1 = n" by blast
  from b n1(1) obtain n2 where n2: "lookup (fs_root fs2) loc = Some n2" "info_of n2 = info_of n1"
    "loc \<notin> Y \<longrightarrow> \<not> is_Dir n1 \<longrightarrow> n2 = n1" by blast
  show "\<exists>n'. lookup (fs_root fs2) loc = Some n' \<and> info_of n' = info_of n \<and>
              (loc \<notin> X \<union> Y \<longrightarrow> \<not> is_Dir n \<longrightarrow> n' = n)"
    using n1 n2 is_Dir_info [OF n1(2)] by auto
qed

lemma grows_mono: "grows X fs fs' \<Longrightarrow> X \<subseteq> Y \<Longrightarrow> grows Y fs fs'"
  unfolding grows_def by blast

lemma grows_lookup:
  "grows X fs fs' \<Longrightarrow> lookup (fs_root fs) loc = Some n \<Longrightarrow>
     \<exists>n'. lookup (fs_root fs') loc = Some n' \<and> info_of n' = info_of n"
  unfolding grows_def by blast

lemma grows_file:
  "grows X fs fs' \<Longrightarrow> lookup (fs_root fs) loc = Some (File m d) \<Longrightarrow> loc \<notin> X \<Longrightarrow>
     lookup (fs_root fs') loc = Some (File m d)"
  unfolding grows_def by fastforce

lemma grows_step:
  assumes g: "grows X fs fs'" and s: "step fs l c = Inr l'"
  shows "step fs' l c = Inr l'"
proof -
  from s obtain m es where d: "lookup (fs_root fs) l = Some (Dir m es)" and x: "owner_x m"
    by (auto simp: step_def split: option.splits node.splits if_splits)
  from grows_lookup [OF g d] obtain es' where d': "lookup (fs_root fs') l = Some (Dir m es')"
    using info_of_Dir by blast
  show ?thesis
  proof (cases "c = ''.'' \<or> c = ''..''")
    case True
    then show ?thesis using s d d' x by (auto simp: step_def)
  next
    case False
    with s d x obtain ch where ch: "map_of es c = Some ch" and l': "l' = l @ [c]"
      by (auto simp: step_def split: option.splits)
    then have "lookup (fs_root fs) (l @ [c]) = Some ch" using d by (simp add: lookup_snoc_child)
    from grows_lookup [OF g this] obtain ch' where "lookup (fs_root fs') (l @ [c]) = Some ch'"
      by blast
    then have "map_of es' c = Some ch'" using d' by (simp add: lookup_snoc_child)
    then show ?thesis using False d' x l' by (auto simp: step_def)
  qed
qed

lemma grows_steps:
  "grows X fs fs' \<Longrightarrow> steps fs l cs = Inr l' \<Longrightarrow> steps fs' l cs = Inr l'"
proof (induction cs arbitrary: l)
  case (Cons c cs)
  from Cons.prems(2) obtain l1 where 1: "step fs l c = Inr l1" and 2: "steps fs l1 cs = Inr l'"
    by (auto split: sum.splits)
  show ?case using grows_step [OF Cons.prems(1) 1] Cons.IH [OF Cons.prems(1) 2] by simp
qed simp

lemma grows_start: "grows X fs fs' \<Longrightarrow> start fs' s = start fs s"
  by (simp add: grows_def start_def)

lemma grows_namei:
  assumes g: "grows X fs fs'" and n: "namei fs p = Inr loc"
  shows "namei fs' p = Inr loc"
proof -
  from n have p: "p \<noteq> []" and s: "steps fs (start fs p) (components p) = Inr loc"
    and l: "lookup (fs_root fs) loc \<noteq> None"
    and t: "\<not> (last p = CHR ''/'' \<and> \<not> is_dir_at fs loc)"
    by (auto simp: namei_def split: sum.splits if_splits)
  from l obtain k where k: "lookup (fs_root fs) loc = Some k" by blast
  from grows_lookup [OF g k] obtain k' where k': "lookup (fs_root fs') loc = Some k'"
    "info_of k' = info_of k" by blast
  have "is_dir_at fs' loc = is_dir_at fs loc"
    using k k' by (cases k; cases k') (auto simp: is_dir_at_def)
  then show ?thesis
    using p grows_steps [OF g s] k' t by (simp add: namei_def grows_start [OF g])
qed

text \<open>The system calls that write make the file system grow; an open for writing with
  \<open>O_TRUNC\<close> and a copy change the bytes of the one file they are given.\<close>

lemma components_nonempty: "components s \<noteq> [] \<Longrightarrow> s \<noteq> []"
  by (auto simp: components_def)

lemma new_entry_grows:
  assumes "new_entry fs s nd = Inr (l, fs')"
  shows "grows {} fs fs'" and "lookup (fs_root fs') l = Some nd"
    and "lookup (fs_root fs) l = None"
    and "(\<forall>fm d. nd = File fm d \<longrightarrow> last s \<noteq> CHR ''/'') \<Longrightarrow> namei fs' s = Inr l"
proof -
  define cs where "cs = components s"
  from assms have cs: "cs \<noteq> []" by (auto simp: new_entry_def cs_def Let_def split: if_splits)
  from assms cs obtain ploc where pl: "steps fs (start fs s) (butlast cs) = Inr ploc"
    by (auto simp: new_entry_def cs_def Let_def split: sum.splits if_splits)
  from assms cs pl obtain m es where d: "lookup (fs_root fs) ploc = Some (Dir m es)"
    by (auto simp: new_entry_def cs_def Let_def split: option.splits node.splits if_splits)
  from assms cs pl d have x: "owner_x m" and nd: "last cs \<noteq> ''.''" "last cs \<noteq> ''..''"
    and free: "map_of es (last cs) = None"
    and l: "l = ploc @ [last cs]"
    and fs': "fs' = fs\<lparr>fs_root := store (fs_root fs) (ploc @ [last cs]) nd\<rparr>"
    by (auto simp: new_entry_def cs_def Let_def split: if_splits)
  show g: "grows {} fs fs'"
    unfolding grows_def fs' using store_new_other [OF d free] by simp
  show 2: "lookup (fs_root fs') l = Some nd"
    unfolding fs' l using store_new_same [OF d free] by simp
  show "lookup (fs_root fs) l = None"
    unfolding l using d free by (simp add: lookup_snoc_child)
  assume tr: "\<forall>fm d. nd = File fm d \<longrightarrow> last s \<noteq> CHR ''/''"
  from grows_lookup [OF g d] obtain es' where d': "lookup (fs_root fs') ploc = Some (Dir m es')"
    using info_of_Dir by blast
  have "map_of es' (last cs) = Some nd"
    using 2 d' unfolding l by (simp add: lookup_snoc_child)
  then have st: "step fs' ploc (last cs) = Inr l"
    using d' x nd l by (simp add: step_def)
  have "steps fs' (start fs' s) (butlast cs @ [last cs]) = Inr l"
    using grows_steps [OF g pl] st by (simp add: steps_append grows_start [OF g])
  then have "steps fs' (start fs' s) (components s) = Inr l"
    using cs by (simp add: cs_def)
  moreover have "s \<noteq> []" using cs components_nonempty by (auto simp: cs_def)
  moreover have "\<not> (last s = CHR ''/'' \<and> \<not> is_dir_at fs' l)"
    using tr 2 by (cases nd) (auto simp: is_dir_at_def)
  ultimately show "namei fs' s = Inr l" using 2 by (simp add: namei_def)
qed

lemma os_Mkdir_grows: "os_Mkdir p perm fs = (r, fs') \<Longrightarrow> grows {} fs fs'"
  using new_entry_grows(1) [of fs p "Dir perm []"]
  by (auto simp: os_Mkdir_def split: sum.splits prod.splits)

lemma os_MkdirAll_grows: "os_MkdirAll p perm fs = (r, fs') \<Longrightarrow> grows {} fs fs'"
proof (induction p perm fs arbitrary: r fs' rule: os_MkdirAll.induct)
  case (1 path perm fs)
  show ?case
  proof (cases "os_Stat path fs")
    case (Inr dir)
    then show ?thesis using "1.prems" by (auto simp: os_MkdirAll.simps [of path perm fs] split: if_splits)
  next
    case (Inl e)
    define upto_i where "upto_i = rev (dropWhile (\<lambda>c. c = CHR ''/'') (rev path))"
    define upto_j where "upto_j = rev (dropWhile (\<lambda>c. c \<noteq> CHR ''/'') (rev upto_i))"
    have eq: "os_MkdirAll path perm fs =
        (case (if length upto_j > 1 then os_MkdirAll (butlast upto_j) perm fs
               else (None, fs)) of
           (Some err, fs1) \<Rightarrow> (Some err, fs1)
         | (None, fs1) \<Rightarrow>
             (case os_Mkdir path perm fs1 of
                (None, fs2) \<Rightarrow> (None, fs2)
              | (Some err, fs2) \<Rightarrow>
                  (case os_Lstat path fs2 of
                     Inr dir \<Rightarrow> if IsDir dir then (None, fs2) else (Some err, fs2)
                   | Inl e1 \<Rightarrow> (Some err, fs2))))"
      unfolding upto_j_def upto_i_def
      by (subst os_MkdirAll.simps) (simp add: Inl Let_def)
    obtain r1 fs1 where par: "(if length upto_j > 1 then os_MkdirAll (butlast upto_j) perm fs
                    else (None, fs)) = (r1, fs1)" by force
    have g1: "grows {} fs fs1"
    proof (cases "length upto_j > 1")
      case True
      then show ?thesis using "1.IH" [OF Inl upto_i_def upto_j_def True] par by simp
    next
      case False
      then show ?thesis using par by simp
    qed
    note res = "1.prems" [unfolded eq par]
    show ?thesis
    proof (cases r1)
      case (Some err)
      then have "fs' = fs1" using res by simp
      then show ?thesis using g1 by simp
    next
      case None
      obtain r2 fs2 where mk: "os_Mkdir path perm fs1 = (r2, fs2)" by force
      have "fs' = fs2" using res None mk
        by (auto split: option.splits sum.splits if_splits)
      then show ?thesis using grows_trans [OF g1 os_Mkdir_grows [OF mk]] by simp
    qed
  qed
qed

lemma MkdirAll_grows: "MkdirAll p fs = (r, fs') \<Longrightarrow> grows {} fs fs'"
  using os_MkdirAll_grows [of p defaultDirMode fs]
  by (auto simp: MkdirAll_def split: prod.splits option.splits)

lemma createFileFlag_bits: "bit createFileFlag 0" "bit createFileFlag 6" "bit createFileFlag 9"
  by code_simp+

lemma os_OpenFile_error: "os_OpenFile p flag mode fs = (Inl e, fs') \<Longrightarrow> fs' = fs"
  by (auto simp: os_OpenFile_def split: sum.splits option.splits node.splits if_splits prod.splits)

lemma os_OpenFile_create:
  assumes "os_OpenFile p createFileFlag mode fs = (Inr h, fs')"
  shows "\<exists>dl dm. h = Handle dl \<and> grows {dl} fs fs' \<and> namei fs' p = Inr dl
           \<and> lookup (fs_root fs') dl = Some (File dm [])"
proof (cases "namei fs p")
  case (Inr loc)
  with assms obtain m d where f: "lookup (fs_root fs) loc = Some (File m d)"
    and h: "h = Handle loc" and fs': "fs' = fs\<lparr>fs_root := store (fs_root fs) loc (File m [])\<rparr>"
    by (auto simp: os_OpenFile_def createFileFlag_bits
        split: option.splits node.splits if_splits)
  have g: "grows {loc} fs fs'"
    unfolding grows_def fs' using store_file_other [OF f, of _ _ "[]"] by simp
  have "lookup (fs_root fs') loc = Some (File m [])"
    unfolding fs' using store_file_same [OF f] by simp
  then show ?thesis using h g grows_namei [OF g Inr] by blast
next
  case (Inl e)
  with assms obtain loc where ne: "new_entry fs p (File mode []) = Inr (loc, fs')"
    and h: "h = Handle loc"
    by (auto simp: os_OpenFile_def createFileFlag_bits split: sum.splits if_splits)
  have tr: "last p \<noteq> CHR ''/''"
    using ne by (auto simp: new_entry_def Let_def split: if_splits sum.splits option.splits node.splits)
  show ?thesis
    using h new_entry_grows(1,2,4) [OF ne] tr grows_mono [of "{}" fs fs' "{loc}"] by auto
qed

lemma io_Copy_grows:
  assumes "io_Copy (Handle dl) (Handle sl) fs = (Inr k, fs')"
  shows "\<exists>sm sd dm dd. lookup (fs_root fs) sl = Some (File sm sd)
           \<and> lookup (fs_root fs) dl = Some (File dm dd) \<and> grows {dl} fs fs'
           \<and> lookup (fs_root fs') dl = Some (File dm (sd @ drop (length sd) dd))"
proof -
  from assms obtain sm sd dm dd where s: "lookup (fs_root fs) sl = Some (File sm sd)"
    and d: "lookup (fs_root fs) dl = Some (File dm dd)"
    and fs': "fs' = fs\<lparr>fs_root := store (fs_root fs) dl (File dm (sd @ drop (length sd) dd))\<rparr>"
    by (auto simp: io_Copy_def split: option.splits node.splits)
  have "grows {dl} fs fs'"
    unfolding grows_def fs' using store_file_other [OF d] by simp
  moreover have "lookup (fs_root fs') dl = Some (File dm (sd @ drop (length sd) dd))"
    unfolding fs' using store_file_same [OF d] by simp
  ultimately show ?thesis using s d by blast
qed

text \<open>
  A copy that returns no error, in full: source and destination name regular files
  afterwards, the source the one it named before. If they are two files, the destination
  holds the bytes of the source and the source has kept them; if they are one file, it is
  empty.
\<close>

lemma open_read:
  assumes i: "Info src fs = Some info" and o: "open' src openFileFlag mode fs = (Inr h, fs1)"
  shows "fs1 = fs \<and> (\<exists>sl sm sd. h = Handle sl \<and> namei fs src = Inr sl
           \<and> lookup (fs_root fs) sl = Some (File sm sd))"
proof -
  from Info_SomeD [OF i] obtain sl n where sl: "namei fs src = Inr sl"
    and n: "lookup (fs_root fs) sl = Some n" by blast
  from o have nd: "\<not> DirExists src fs" by (auto simp: open'_def split: if_splits)
  then obtain sm sd where f: "n = File sm sd"
    using sl n by (cases n) (auto simp: DirExists_def Info_def os_Stat_def)
  have "os_OpenFile src openFileFlag mode fs = (Inr (Handle sl), fs)
      \<or> os_OpenFile src openFileFlag mode fs = (Inl EACCES, fs)"
    using sl n f by (auto simp: os_OpenFile_def openFileFlag_def O_RDONLY_def)
  then show ?thesis
    using o nd sl n f by (auto simp: open'_def os_IsNotExist_def split: if_splits)
qed

lemma open_create:
  assumes "open' p createFileFlag mode fs = (Inr h, fs')"
  shows "\<exists>dl dm. h = Handle dl \<and> grows {dl} fs fs' \<and> namei fs' p = Inr dl
           \<and> lookup (fs_root fs') dl = Some (File dm [])"
proof -
  obtain r fs1 where 1: "os_OpenFile p createFileFlag mode fs = (r, fs1)" by force
  show ?thesis
  proof (cases r)
    case (Inr f0)
    then have "h = f0" "fs' = fs1" using assms 1 by (auto simp: open'_def split: if_splits)
    then show ?thesis using os_OpenFile_create [of p mode fs h fs'] 1 Inr by simp
  next
    case (Inl err)
    then have fs1: "fs1 = fs" using os_OpenFile_error 1 by blast
    obtain r2 fs2 where 2: "MkdirAll (Parent (Clean p)) fs = (r2, fs2)" by force
    from assms 1 Inl fs1 2 have 3: "os_OpenFile p createFileFlag mode fs2 = (Inr h, fs')"
      by (auto simp: open'_def split: if_splits option.splits)
    from os_OpenFile_create [OF 3] obtain dl dm where dl: "h = Handle dl"
      "grows {dl} fs2 fs'" "namei fs' p = Inr dl" "lookup (fs_root fs') dl = Some (File dm [])"
      by blast
    have "grows {dl} fs fs'"
      using grows_trans [OF MkdirAll_grows [OF 2] dl(2)] by simp
    then show ?thesis using dl by blast
  qed
qed

lemma copyFiles_result:
  assumes ok: "copyFiles src dest fs = (None, fs')"
  shows "\<exists>sl sm d dl dm d'.
           namei fs src = Inr sl \<and> lookup (fs_root fs) sl = Some (File sm d)
           \<and> namei fs' src = Inr sl \<and> namei fs' dest = Inr dl
           \<and> lookup (fs_root fs') dl = Some (File dm (if dl = sl then [] else d))
           \<and> lookup (fs_root fs') sl = Some (File sm (if dl = sl then [] else d))"
proof -
  from ok obtain info where i: "Info src fs = Some info"
    by (auto simp: copyFiles_def split: option.splits)
  obtain r1 fs1 where 1: "open' src openFileFlag 256 fs = (r1, fs1)" by force
  with ok i obtain srcFile where r1: "r1 = Inr srcFile"
    by (cases r1) (auto simp: copyFiles_def)
  from open_read [OF i 1 [unfolded r1]] obtain sl sm d where fs1: "fs1 = fs"
    and sf: "srcFile = Handle sl" and sl: "namei fs src = Inr sl"
    and s: "lookup (fs_root fs) sl = Some (File sm d)" by blast
  obtain r2 fs2 where 2: "open' dest createFileFlag (Mode info) fs = (r2, fs2)" by force
  with ok i 1 r1 fs1 obtain destFile where r2: "r2 = Inr destFile"
    by (cases r2) (auto simp: copyFiles_def)
  from open_create [OF 2 [unfolded r2]] obtain dl dm where df: "destFile = Handle dl"
    and g2: "grows {dl} fs fs2" and dl: "namei fs2 dest = Inr dl"
    and d2: "lookup (fs_root fs2) dl = Some (File dm [])" by blast
  obtain r3 fs3 where 3: "io_Copy (Handle dl) (Handle sl) fs2 = (r3, fs3)" by force
  with ok i 1 r1 fs1 2 r2 df sf obtain k where r3: "r3 = Inr k" and fs3: "fs3 = fs'"
    by (cases r3) (auto simp: copyFiles_def)
  from io_Copy_grows [OF 3 [unfolded r3 fs3]] obtain sm2 sd2 dm2 dd2 where
    s2: "lookup (fs_root fs2) sl = Some (File sm2 sd2)"
    and d2': "lookup (fs_root fs2) dl = Some (File dm2 dd2)"
    and g3: "grows {dl} fs2 fs'"
    and d3: "lookup (fs_root fs') dl = Some (File dm2 (sd2 @ drop (length sd2) dd2))" by blast
  from d2 d2' have dd2: "dm2 = dm" "dd2 = []" by auto
  have n1: "namei fs' src = Inr sl" using grows_namei [OF g3 grows_namei [OF g2 sl]] .
  have n2: "namei fs' dest = Inr dl" using grows_namei [OF g3 dl] .
  show ?thesis
  proof (cases "dl = sl")
    case True
    then have "sd2 = []" using s2 d2 by simp
    moreover have "dm = sm" using grows_lookup [OF g2 s] d2 True by auto
    ultimately show ?thesis using True sl s n1 n2 d3 dd2 s2 d2 by auto
  next
    case False
    have "lookup (fs_root fs2) sl = Some (File sm d)" using grows_file [OF g2 s] False by simp
    then have e: "sm2 = sm" "sd2 = d" using s2 by auto
    have "lookup (fs_root fs') sl = Some (File sm d)"
      using grows_file [OF g3 s2] False e by simp
    then show ?thesis using False sl s n1 n2 d3 dd2 e by auto
  qed
qed

lemma copyFiles_copies:
  assumes "copyFiles src dest fs = (None, fs')" and "namei fs' dest \<noteq> namei fs' src"
  shows "contents src fs \<noteq> None" and "contents dest fs' = contents src fs"
    and "contents src fs' = contents src fs"
  using copyFiles_result [OF assms(1)] assms(2) by (auto simp: contents_def)

lemma copyFiles_empties:
  assumes "copyFiles src dest fs = (None, fs')" and "namei fs' dest = namei fs' src"
  shows "contents src fs' = Some []" and "contents dest fs' = Some []"
  using copyFiles_result [OF assms(1)] assms(2) by (auto simp: contents_def)

text \<open>
  C5. The claim has a regular file copied into an existing directory under its base name,
  or to exactly the destination path. The cases are taken in that order (\<open>copy_cases\<close>),
  and the copy is right where source and destination are two files (\<open>copyFiles_copies\<close>).
  But \<open>copyFiles\<close> opens the destination with \<open>O_TRUNC\<close> before it reads a byte of the
  source, and nothing asks whether the two paths name one file. In the working directory
  \<open>/home\<close>, where \<open>notes.txt\<close> holds \<open>hello\<close>, copying \<open>notes.txt\<close> into the directory \<open>.\<close>
  takes the first case, and copying it to \<open>/home/notes.txt\<close> the second: both calls
  return \<open>nil\<close>, and both leave \<open>notes.txt\<close> empty and its bytes in no file at all.
\<close>

theorem CopyTo_onto_itself:
  "FileExists ''notes.txt'' example_fs \<and> DirExists ''.'' example_fs
   \<and> \<not> DirExists ''/home/notes.txt'' example_fs
   \<and> Join ''.'' (Basename ''notes.txt'') = ''notes.txt''
   \<and> ReadAll ''notes.txt'' example_fs = Inr ''hello''
   \<and> CopyTo 0 ''notes.txt'' ''.'' example_fs = Some (None, emptied_fs)
   \<and> CopyTo 0 ''notes.txt'' ''/home/notes.txt'' example_fs = Some (None, emptied_fs)
   \<and> ReadAll ''notes.txt'' emptied_fs = Inr []"
  by code_simp

end
